theory Spec2Isabelle
  imports Main "HOL-Library.Word" "HOL-Library.Multiset"
begin

section \<open>Fair FIFO reader-writer lock (\<^verbatim>\<open>src/mutex/rw_lock.cpp\<close>, \<^verbatim>\<open>src/1.cpp\<close>)\<close>

text \<open>
  The gated variant of \<^verbatim>\<open>shared_mutex\<close> exists twice: as
  \<^verbatim>\<open>fair_fifo::shared_mutex\<close> in \<^verbatim>\<open>src/mutex/rw_lock.cpp\<close> and as the global class
  \<^verbatim>\<open>shared_mutex\<close> in \<^verbatim>\<open>src/1.cpp\<close>. Both have the same fields, so one record
  serves both; the member functions are embedded once per file, prefixed
  \<open>fair_fifo_\<close> and \<open>shared_mutex_\<close>. Every member function runs under the internal
  mutex \<^verbatim>\<open>mtx_\<close>, so each is one atomic state transformer.

  A \<^verbatim>\<open>Waiter*\<close> is an address (\<open>None\<close> is the null pointer). The Waiter objects
  live on the callers' stacks: the field \<open>go\<close> gives the gate of the Waiter at each
  address and \<open>notified\<close> logs the \<^verbatim>\<open>notify_one\<close> calls on their condition variables,
  oldest first. \<^verbatim>\<open>std::size_t\<close> and \<^verbatim>\<open>std::uint64_t\<close> are 64-bit words.
\<close>

datatype Mode = Read | Write

record Node =
  mode :: Mode
  ticket :: "64 word"
  waiter :: "nat option"

record shared_mutex =
  q :: "Node list"
  has_writer :: bool
  reader_cnt :: "64 word"
  pending_readers :: "64 word"
  next_ticket :: "64 word"
  go :: "nat \<Rightarrow> bool"
  notified :: "nat list"

text \<open>A default-constructed lock, with every gate closed.\<close>

definition shared_mutex_init :: shared_mutex where
  "shared_mutex_init =
     \<lparr>q = [], has_writer = False, reader_cnt = 0, pending_readers = 0, next_ticket = 0,
      go = (\<lambda>_. False), notified = []\<rparr>"

text \<open>The two statements \<^verbatim>\<open>w->go = true; w->cv.notify_one();\<close>.\<close>

definition wake :: "nat \<Rightarrow> shared_mutex \<Rightarrow> shared_mutex" where
  "wake w s = s\<lparr>go := (go s)(w := True), notified := notified s @ [w]\<rparr>"

text \<open>
  The \<^verbatim>\<open>while\<close> loop of \<^verbatim>\<open>open_read_batch_and_wake_unsafe_\<close>: it pops Read nodes off
  the front, collects the non-null waiters and counts every popped node (the local
  \<^verbatim>\<open>count\<close> is \<open>counted\<close> here).
\<close>

fun pop_reads :: "Node list \<Rightarrow> nat list \<Rightarrow> 64 word \<Rightarrow> Node list \<times> nat list \<times> 64 word" where
  "pop_reads [] to_wake counted = ([], to_wake, counted)"
| "pop_reads (n # ns) to_wake counted =
     (if mode n = Read
      then pop_reads ns (case waiter n of None \<Rightarrow> to_wake | Some w \<Rightarrow> to_wake @ [w]) (counted + 1)
      else (n # ns, to_wake, counted))"

definition open_read_batch_and_wake_unsafe :: "shared_mutex \<Rightarrow> shared_mutex" where
  "open_read_batch_and_wake_unsafe s =
     (case pop_reads (q s) [] 0 of
        (q', to_wake, counted) \<Rightarrow> fold wake to_wake (s\<lparr>q := q', pending_readers := counted\<rparr>))"

text \<open>The non-null waiters of a run of nodes, in queue order.\<close>

definition batch_waiters :: "Node list \<Rightarrow> nat list" where
  "batch_waiters ns = concat (map (\<lambda>n. case waiter n of None \<Rightarrow> [] | Some w \<Rightarrow> [w]) ns)"

subsection \<open>\<^verbatim>\<open>fair_fifo::shared_mutex\<close> of \<^verbatim>\<open>src/mutex/rw_lock.cpp\<close>\<close>

definition fair_fifo_wake_next :: "shared_mutex \<Rightarrow> shared_mutex" where
  "fair_fifo_wake_next s =
     (if has_writer s \<or> reader_cnt s \<noteq> 0 then s
      else if pending_readers s \<noteq> 0 then s
      else case q s of
        [] \<Rightarrow> s
      | n # _ \<Rightarrow>
          if mode n = Write
          then (case waiter n of None \<Rightarrow> s | Some w \<Rightarrow> wake w s)
          else open_read_batch_and_wake_unsafe s)"

definition fair_fifo_try_lock :: "shared_mutex \<Rightarrow> bool \<times> shared_mutex" where
  "fair_fifo_try_lock s =
     (if has_writer s then (False, s)
      else if reader_cnt s \<noteq> 0 \<or> pending_readers s \<noteq> 0 then (False, s)
      else if q s \<noteq> [] then (False, s)
      else (True, s\<lparr>has_writer := True\<rparr>))"

definition fair_fifo_unlock :: "shared_mutex \<Rightarrow> shared_mutex" where
  "fair_fifo_unlock s = fair_fifo_wake_next (s\<lparr>has_writer := False\<rparr>)"

definition fair_fifo_try_lock_shared :: "shared_mutex \<Rightarrow> bool \<times> shared_mutex" where
  "fair_fifo_try_lock_shared s =
     (if has_writer s then (False, s)
      else if pending_readers s \<noteq> 0 then (False, s)
      else if q s \<noteq> [] then (False, s)
      else (True, s\<lparr>reader_cnt := reader_cnt s + 1\<rparr>))"

definition fair_fifo_unlock_shared :: "shared_mutex \<Rightarrow> shared_mutex" where
  "fair_fifo_unlock_shared s =
     (let s1 = s\<lparr>reader_cnt := reader_cnt s - 1\<rparr>
      in if reader_cnt s1 = 0 then fair_fifo_wake_next s1 else s1)"

text \<open>
  \<^verbatim>\<open>lock_shared\<close> up to its wait on the private gate: the Waiter \<open>w\<close> is created with
  a closed gate, a Read node with the next ticket is appended and the scheduler runs.
  The caller then sleeps until \<open>go s w\<close>.
\<close>

definition fair_fifo_lock_shared_arrive :: "nat \<Rightarrow> shared_mutex \<Rightarrow> shared_mutex" where
  "fair_fifo_lock_shared_arrive w s =
     fair_fifo_wake_next
       (s\<lparr>go := (go s)(w := False),
          next_ticket := next_ticket s + 1,
          q := q s @ [\<lparr>mode = Read, ticket = next_ticket s, waiter = Some w\<rparr>]\<rparr>)"

subsection \<open>\<^verbatim>\<open>shared_mutex\<close> of \<^verbatim>\<open>src/1.cpp\<close>\<close>

text \<open>
  In \<^verbatim>\<open>src/1.cpp\<close> the reader branch of \<^verbatim>\<open>wake_next_\<close> holds only a comment, and
  \<^verbatim>\<open>unlock\<close> assigns \<^verbatim>\<open>true\<close> to \<^verbatim>\<open>has_writer_\<close>.
\<close>

definition shared_mutex_wake_next :: "shared_mutex \<Rightarrow> shared_mutex" where
  "shared_mutex_wake_next s =
     (if has_writer s \<or> reader_cnt s \<noteq> 0 then s
      else if pending_readers s \<noteq> 0 then s
      else case q s of
        [] \<Rightarrow> s
      | n # _ \<Rightarrow>
          if mode n = Write
          then (case waiter n of None \<Rightarrow> s | Some w \<Rightarrow> wake w s)
          else s)"

definition shared_mutex_try_lock :: "shared_mutex \<Rightarrow> bool \<times> shared_mutex" where
  "shared_mutex_try_lock s =
     (if has_writer s then (False, s)
      else if reader_cnt s \<noteq> 0 \<or> pending_readers s \<noteq> 0 then (False, s)
      else if q s \<noteq> [] then (False, s)
      else (True, s\<lparr>has_writer := True\<rparr>))"

definition shared_mutex_unlock :: "shared_mutex \<Rightarrow> shared_mutex" where
  "shared_mutex_unlock s = shared_mutex_wake_next (s\<lparr>has_writer := True\<rparr>)"

definition shared_mutex_try_lock_shared :: "shared_mutex \<Rightarrow> bool \<times> shared_mutex" where
  "shared_mutex_try_lock_shared s =
     (if has_writer s then (False, s)
      else if pending_readers s \<noteq> 0 then (False, s)
      else if q s \<noteq> [] then (False, s)
      else (True, s\<lparr>reader_cnt := reader_cnt s + 1\<rparr>))"

definition shared_mutex_lock_shared_arrive :: "nat \<Rightarrow> shared_mutex \<Rightarrow> shared_mutex" where
  "shared_mutex_lock_shared_arrive w s =
     shared_mutex_wake_next
       (s\<lparr>go := (go s)(w := False),
          next_ticket := next_ticket s + 1,
          q := q s @ [\<lparr>mode = Read, ticket = next_ticket s, waiter = Some w\<rparr>]\<rparr>)"

section \<open>Condition variables and the clock\<close>

text \<open>
  Instants of \<^verbatim>\<open>std::chrono::steady_clock\<close> are integers (ticks since the clock's
  epoch). A thread that waits on a \<^verbatim>\<open>std::condition_variable\<close> releases the internal
  mutex; what it sees when the wait returns is whatever the other threads left. The
  functions below therefore take the list \<open>obs\<close> of the caller's wake-ups, oldest
  first: the state found at each wake-up and, for a timed wait, the instant at which
  the wait returned. A wait that finds \<open>obs\<close> exhausted has not returned: the result
  is \<open>None\<close>.

  \<^verbatim>\<open>cv.wait(lock, pred)\<close> is \<^verbatim>\<open>while (!pred()) wait(lock);\<close> and
  \<^verbatim>\<open>cv.wait_until(lock, abs_time, pred)\<close> is
  \<^verbatim>\<open>while (!pred()) if (wait_until(lock, abs_time) == cv_status::timeout) return pred(); return true;\<close>
  where a single wait reports \<^verbatim>\<open>timeout\<close> when \<open>abs_time\<close> has been reached.
\<close>

type_synonym time = int

fun cv_wait :: "('s \<Rightarrow> bool) \<Rightarrow> 's \<Rightarrow> 's list \<Rightarrow> 's option" where
  "cv_wait pred s [] = (if pred s then Some s else None)"
| "cv_wait pred s (s' # obs) = (if pred s then Some s else cv_wait pred s' obs)"

fun cv_wait_until :: "('s \<Rightarrow> bool) \<Rightarrow> time \<Rightarrow> 's \<Rightarrow> (time \<times> 's) list \<Rightarrow> (bool \<times> 's) option" where
  "cv_wait_until pred abs_time s [] = (if pred s then Some (True, s) else None)"
| "cv_wait_until pred abs_time s ((t, s') # obs) =
     (if pred s then Some (True, s)
      else if abs_time \<le> t then Some (pred s', s')
      else cv_wait_until pred abs_time s' obs)"

text \<open>How a member function can fail: \<^verbatim>\<open>std::terminate()\<close> or a thrown
  \<^verbatim>\<open>std::runtime_error\<close> with its message.\<close>

datatype failure = Terminate | RuntimeError string

section \<open>Timed mutex (\<^verbatim>\<open>TimedLock\<close> in \<^verbatim>\<open>src/mutex/spin_lock.cpp\<close>)\<close>

record TimedLock =
  flag :: bool

definition TimedLock_lock :: "TimedLock \<Rightarrow> TimedLock list \<Rightarrow> TimedLock option" where
  "TimedLock_lock s obs =
     (case cv_wait (\<lambda>s. \<not> flag s) s obs of
        None \<Rightarrow> None
      | Some s' \<Rightarrow> Some (s'\<lparr>flag := True\<rparr>))"

text \<open>
  \<^verbatim>\<open>unlock\<close> has no check and no failing path. Inside the scope of its
  \<^verbatim>\<open>lock_guard\<close> it clears the flag; after that scope it calls \<^verbatim>\<open>cond_.notify_one()\<close>.
  Its result is the state it leaves together with the calls it has made on \<^verbatim>\<open>cond_\<close>,
  in their order. No other member function of \<^verbatim>\<open>TimedLock\<close> notifies.
\<close>

datatype cv_call = notify_one | notify_all

definition TimedLock_unlock :: "TimedLock \<Rightarrow> failure + TimedLock \<times> cv_call list" where
  "TimedLock_unlock s = (let s1 = s\<lparr>flag := False\<rparr> in Inr (s1, [notify_one]))"

definition TimedLock_try_lock :: "TimedLock \<Rightarrow> bool \<times> TimedLock" where
  "TimedLock_try_lock s = (if flag s then (False, s) else (True, s\<lparr>flag := True\<rparr>))"

definition TimedLock_try_lock_until ::
  "time \<Rightarrow> TimedLock \<Rightarrow> (time \<times> TimedLock) list \<Rightarrow> (bool \<times> TimedLock) option" where
  "TimedLock_try_lock_until abs_time s obs =
     (if \<not> flag s then Some (True, s\<lparr>flag := True\<rparr>)
      else case cv_wait_until (\<lambda>s. \<not> flag s) abs_time s obs of
        None \<Rightarrow> None
      | Some (ok, s') \<Rightarrow> if \<not> ok then Some (False, s') else Some (True, s'\<lparr>flag := True\<rparr>))"

section \<open>Reentrant mutexes (\<^verbatim>\<open>RecursiveLock\<close> in \<^verbatim>\<open>src/mutex/recursive_lock.cpp\<close>,
  \<^verbatim>\<open>RecursiveTimedLock\<close> in \<^verbatim>\<open>src/unnamed/part_003\<close>)\<close>

text \<open>
  Both classes hold \<^verbatim>\<open>std::thread::id owner_\<close> and \<^verbatim>\<open>uint64_t cnt_\<close>. A thread id is a
  number; the default-constructed id, which no running thread has, is \<open>None\<close>. The
  calling thread is the argument \<open>this_id\<close>.
\<close>

record RecursiveLock =
  owner :: "nat option"
  cnt :: "64 word"

definition RecursiveLock_init :: RecursiveLock where
  "RecursiveLock_init = \<lparr>owner = None, cnt = 0\<rparr>"

subsection \<open>\<^verbatim>\<open>RecursiveLock\<close>\<close>

definition RecursiveLock_lock :: "nat \<Rightarrow> RecursiveLock \<Rightarrow> RecursiveLock list \<Rightarrow> RecursiveLock option" where
  "RecursiveLock_lock this_id s obs =
     (case cv_wait (\<lambda>s. cnt s = 0 \<or> owner s = Some this_id) s obs of
        None \<Rightarrow> None
      | Some s' \<Rightarrow>
          Some ((if cnt s' = 0 then s'\<lparr>owner := Some this_id\<rparr> else s')\<lparr>cnt := cnt s' + 1\<rparr>))"

text \<open>\<^verbatim>\<open>try_lock\<close> takes the internal mutex with \<^verbatim>\<open>std::try_to_lock\<close>; \<open>owns_lock\<close> says
  whether it got it.\<close>

definition RecursiveLock_try_lock :: "nat \<Rightarrow> bool \<Rightarrow> RecursiveLock \<Rightarrow> bool \<times> RecursiveLock" where
  "RecursiveLock_try_lock this_id owns_lock s =
     (if \<not> owns_lock then (False, s)
      else if cnt s = 0 then (True, s\<lparr>owner := Some this_id, cnt := 1\<rparr>)
      else if owner s = Some this_id then (True, s\<lparr>cnt := cnt s + 1\<rparr>)
      else (False, s))"

definition RecursiveLock_unlock :: "nat \<Rightarrow> RecursiveLock \<Rightarrow> failure + RecursiveLock" where
  "RecursiveLock_unlock this_id s =
     (if Some this_id \<noteq> owner s then Inl (RuntimeError ''unlock by another thread'')
      else let s1 = s\<lparr>cnt := cnt s - 1\<rparr>
           in if cnt s1 = 0 then Inr (s1\<lparr>owner := None\<rparr>) else Inr s1)"

subsection \<open>\<^verbatim>\<open>RecursiveTimedLock\<close>\<close>

definition RecursiveTimedLock_lock ::
  "nat \<Rightarrow> RecursiveLock \<Rightarrow> RecursiveLock list \<Rightarrow> RecursiveLock option" where
  "RecursiveTimedLock_lock this_id s obs =
     (case cv_wait (\<lambda>s. cnt s = 0 \<or> owner s = Some this_id) s obs of
        None \<Rightarrow> None
      | Some s' \<Rightarrow>
          Some ((if cnt s' = 0 then s'\<lparr>owner := Some this_id\<rparr> else s')\<lparr>cnt := cnt s' + 1\<rparr>))"

definition RecursiveTimedLock_try_lock :: "nat \<Rightarrow> RecursiveLock \<Rightarrow> bool \<times> RecursiveLock" where
  "RecursiveTimedLock_try_lock this_id s =
     (if Some this_id = owner s then (True, s\<lparr>cnt := cnt s + 1\<rparr>)
      else if cnt s = 0 then (True, s\<lparr>owner := Some this_id, cnt := 1\<rparr>)
      else (False, s))"

definition RecursiveTimedLock_unlock :: "nat \<Rightarrow> RecursiveLock \<Rightarrow> failure + RecursiveLock" where
  "RecursiveTimedLock_unlock this_id s =
     (if cnt s = 0 \<or> owner s \<noteq> Some this_id then Inl Terminate
      else let s1 = s\<lparr>cnt := cnt s - 1\<rparr>
           in if cnt s1 = 0 then Inr (s1\<lparr>owner := None\<rparr>) else Inr s1)"

definition RecursiveTimedLock_try_lock_until ::
  "nat \<Rightarrow> time \<Rightarrow> RecursiveLock \<Rightarrow> (time \<times> RecursiveLock) list \<Rightarrow> (bool \<times> RecursiveLock) option" where
  "RecursiveTimedLock_try_lock_until this_id abs_time s obs =
     (if cnt s = 0 then Some (True, s\<lparr>owner := Some this_id, cnt := 1\<rparr>)
      else if owner s = Some this_id then Some (True, s\<lparr>cnt := cnt s + 1\<rparr>)
      else case cv_wait_until (\<lambda>s. cnt s = 0) abs_time s obs of
        None \<Rightarrow> None
      | Some (ok, s') \<Rightarrow>
          if \<not> ok then Some (False, s') else Some (True, s'\<lparr>owner := Some this_id, cnt := 1\<rparr>))"

text \<open>The invariant of the reentrant state: the count is zero exactly when there is no
  owner.\<close>

definition recursive_inv :: "RecursiveLock \<Rightarrow> bool" where
  "recursive_inv s = ((cnt s = 0) = (owner s = None))"
section \<open>Task queue (\<^verbatim>\<open>TaskQueue\<close> in \<^verbatim>\<open>src/unnamed/part_005\<close> and in
  \<^verbatim>\<open>src/thread_pool/src/_v4.hpp\<close>)\<close>

text \<open>
  A task is an opaque value of type \<open>'a\<close>. Both files declare the same three fields:
  the FIFO \<^verbatim>\<open>tasks_\<close>, the heap \<^verbatim>\<open>delay_tasks_\<close> and the flag \<^verbatim>\<open>stop_\<close>. The member
  functions of \<^verbatim>\<open>src/unnamed/part_005\<close> are prefixed \<open>TaskQueue_\<close>, those of
  \<^verbatim>\<open>_v4.hpp\<close> are prefixed \<open>TaskQueue_v4_\<close>. The notifications that follow an enqueue
  change no field and are left out.
\<close>

subsection \<open>The heap of delayed tasks\<close>

text \<open>
  A \<^verbatim>\<open>TimeTask\<close> is the pair of \<^verbatim>\<open>exec_tm_\<close> and \<^verbatim>\<open>task_\<close>. Its \<^verbatim>\<open>operator<\<close> is
  reversed (\<^verbatim>\<open>exec_tm_ > other.exec_tm_\<close>), so that the entry with the least time is the
  greatest one.
\<close>

definition TimeTask_less :: "time \<times> 'a \<Rightarrow> time \<times> 'a \<Rightarrow> bool" where
  "TimeTask_less a b = (fst b < fst a)"

text \<open>
  \<^verbatim>\<open>delay_tasks_\<close> is a \<^verbatim>\<open>std::priority_queue<TimeTask>\<close>: a \<^verbatim>\<open>std::vector\<close> that
  \<^verbatim>\<open>std::push_heap\<close> and \<^verbatim>\<open>std::pop_heap\<close> keep as a binary heap, the parent of the
  element at index \<open>i\<close> being at \<open>(i - 1) / 2\<close>. Which of several entries with the
  same time is on top is decided by these two functions, which are modelled as libstdc++
  has them (\<^verbatim>\<open>bits/stl_heap.h\<close>), on the list of the elements of the vector.

  \<open>push_heap_loop\<close> is \<^verbatim>\<open>std::__push_heap\<close>: it moves the hole at \<open>holeIndex\<close> up,
  as long as the parent is less than \<open>val\<close>, and puts \<open>val\<close> into the hole.
  \<open>adjust_heap_loop\<close> is the \<^verbatim>\<open>while\<close> loop of \<^verbatim>\<open>std::__adjust_heap\<close>: it moves the hole
  down to the bottom, each time to the greater child (the second one, when neither is
  less than the other), and returns the vector and the index of the hole.
  \<open>adjust_heap\<close> then steps to an only child, when the hole has one, and lets
  \<^verbatim>\<open>std::__push_heap\<close> bring \<open>val\<close> up from there. It is called with \<open>len \<ge> 1\<close>.
\<close>

function push_heap_loop ::
  "(time \<times> 'a) list \<Rightarrow> nat \<Rightarrow> nat \<Rightarrow> time \<times> 'a \<Rightarrow> (time \<times> 'a) list" where
  "push_heap_loop v holeIndex topIndex val =
     (if topIndex < holeIndex \<and> TimeTask_less (v ! ((holeIndex - 1) div 2)) val
      then push_heap_loop (v[holeIndex := v ! ((holeIndex - 1) div 2)])
             ((holeIndex - 1) div 2) topIndex val
      else v[holeIndex := val])"
  by pat_completeness auto

termination
  by (relation "measure (\<lambda>(v, holeIndex, topIndex, val). holeIndex)") auto

declare push_heap_loop.simps [simp del]

function adjust_heap_loop ::
  "(time \<times> 'a) list \<Rightarrow> nat \<Rightarrow> nat \<Rightarrow> (time \<times> 'a) list \<times> nat" where
  "adjust_heap_loop v holeIndex len =
     (if holeIndex < (len - 1) div 2
      then let secondChild = 2 * (holeIndex + 1);
               secondChild =
                 (if TimeTask_less (v ! secondChild) (v ! (secondChild - 1))
                  then secondChild - 1 else secondChild)
           in adjust_heap_loop (v[holeIndex := v ! secondChild]) secondChild len
      else (v, holeIndex))"
  by pat_completeness auto

termination
  by (relation "measure (\<lambda>(v, holeIndex, len). len - holeIndex)") (auto simp: Let_def)

declare adjust_heap_loop.simps [simp del]

definition adjust_heap ::
  "(time \<times> 'a) list \<Rightarrow> nat \<Rightarrow> nat \<Rightarrow> time \<times> 'a \<Rightarrow> (time \<times> 'a) list" where
  "adjust_heap v holeIndex len val =
     (case adjust_heap_loop v holeIndex len of
        (v1, secondChild) \<Rightarrow>
          if len mod 2 = 0 \<and> secondChild = (len - 2) div 2
          then push_heap_loop (v1[secondChild := v1 ! (2 * (secondChild + 1) - 1)])
                 (2 * (secondChild + 1) - 1) holeIndex val
          else push_heap_loop v1 secondChild holeIndex val)"

text \<open>
  \<^verbatim>\<open>std::push_heap\<close> takes the last element as the value to bring up. \<^verbatim>\<open>std::pop_heap\<close>, on
  more than one element, puts the first element into the last place and lets
  \<^verbatim>\<open>std::__adjust_heap\<close> fill the hole at index 0 of the range without that place with the
  element that was last.
\<close>

definition push_heap :: "(time \<times> 'a) list \<Rightarrow> (time \<times> 'a) list" where
  "push_heap v = push_heap_loop v (length v - 1) 0 (v ! (length v - 1))"

definition pop_heap :: "(time \<times> 'a) list \<Rightarrow> (time \<times> 'a) list" where
  "pop_heap v =
     (if 1 < length v
      then adjust_heap (v[length v - 1 := v ! 0]) 0 (length v - 1) (v ! (length v - 1))
      else v)"

text \<open>
  The members of \<^verbatim>\<open>std::priority_queue\<close> that the queue uses: \<^verbatim>\<open>top\<close> is
  \<^verbatim>\<open>c.front()\<close>, \<^verbatim>\<open>emplace\<close> is \<^verbatim>\<open>c.emplace_back\<close> followed by \<^verbatim>\<open>std::push_heap\<close>, and
  \<^verbatim>\<open>pop\<close> is \<^verbatim>\<open>std::pop_heap\<close> followed by \<^verbatim>\<open>c.pop_back()\<close>. The source calls \<^verbatim>\<open>top\<close>
  and \<^verbatim>\<open>pop\<close> only on a heap it has found non-empty.
\<close>

definition pq_top :: "(time \<times> 'a) list \<Rightarrow> time \<times> 'a" where
  "pq_top v = hd v"

definition pq_push :: "time \<times> 'a \<Rightarrow> (time \<times> 'a) list \<Rightarrow> (time \<times> 'a) list" where
  "pq_push e v = push_heap (v @ [e])"

definition pq_pop :: "(time \<times> 'a) list \<Rightarrow> (time \<times> 'a) list" where
  "pq_pop v = butlast (pop_heap v)"




subsection \<open>The queue\<close>

record 'a TaskQueue =
  tasks :: "'a list"
  delay_tasks :: "(time \<times> 'a) list"
  stop_flag :: bool

datatype 'a PopResult = OK 'a | STOPPED | TIMEOUT


text \<open>
  Ticks of \<^verbatim>\<open>steady_clock\<close> are nanoseconds, and every count of ticks, of milliseconds
  or of seconds is a signed 64-bit integer: a sum, a difference or a product that leaves
  the range wraps around (\<open>wrap64\<close>). \<open>seconds\<close> and \<open>milliseconds\<close> convert a count
  of that unit to ticks, \<open>seconds_to_ms\<close> converts seconds to milliseconds, and
  \<open>to_milliseconds\<close> is \<^verbatim>\<open>duration_cast\<close> from ticks to milliseconds, which truncates
  towards zero.
\<close>

definition wrap64 :: "int \<Rightarrow> int" where
  "wrap64 x = (x + 9223372036854775808) mod 18446744073709551616 - 9223372036854775808"

definition seconds :: "int \<Rightarrow> time" where
  "seconds n = wrap64 (n * 1000000000)"

definition milliseconds :: "int \<Rightarrow> time" where
  "milliseconds n = wrap64 (n * 1000000)"

definition seconds_to_ms :: "int \<Rightarrow> int" where
  "seconds_to_ms n = wrap64 (n * 1000)"

definition to_milliseconds :: "time \<Rightarrow> int" where
  "to_milliseconds d = (if 0 \<le> d then d div 1000000 else - ((- d) div 1000000))"

subsection \<open>\<^verbatim>\<open>src/unnamed/part_005\<close>\<close>

definition TaskQueue_stop :: "'a TaskQueue \<Rightarrow> 'a TaskQueue" where
  "TaskQueue_stop s = s\<lparr>stop_flag := True\<rparr>"

definition TaskQueue_size :: "'a TaskQueue \<Rightarrow> nat" where
  "TaskQueue_size s = length (tasks s) + length (delay_tasks s)"

definition TaskQueue_push :: "'a \<Rightarrow> 'a TaskQueue \<Rightarrow> 'a TaskQueue" where
  "TaskQueue_push task s = (if stop_flag s then s else s\<lparr>tasks := tasks s @ [task]\<rparr>)"

definition TaskQueue_push_priority :: "'a \<Rightarrow> 'a TaskQueue \<Rightarrow> 'a TaskQueue" where
  "TaskQueue_push_priority task s = (if stop_flag s then s else s\<lparr>tasks := task # tasks s\<rparr>)"

definition TaskQueue_push_delay :: "'a \<Rightarrow> time \<Rightarrow> 'a TaskQueue \<Rightarrow> 'a TaskQueue" where
  "TaskQueue_push_delay task exec_tm s =
     (if stop_flag s then s else s\<lparr>delay_tasks := pq_push (exec_tm, task) (delay_tasks s)\<rparr>)"

text \<open>
  \<^verbatim>\<open>pop\<close> reads the clock and waits on the condition variable. \<open>clk\<close> lists the values
  that the successive calls of \<^verbatim>\<open>steady_clock::now()\<close> return, and \<open>wakes\<close> lists the
  wake-ups of \<^verbatim>\<open>cond_.wait_until\<close>: the instant at which the wait returned, which makes
  it a \<^verbatim>\<open>timeout\<close> when the awaited instant has been reached, and the queue as the other
  threads left it. When either list is exhausted \<^verbatim>\<open>pop\<close> has not returned (\<open>None\<close>).
  The loop body is \<open>pop_loop\<close>; \<open>deadline\<close> is the local variable of that name. After
  a wait that timed out, \<^verbatim>\<open>pop\<close> reads the clock and returns \<open>TIMEOUT\<close> when the idle
  deadline has been reached, without looking at the queue again.
\<close>

fun pop_loop ::
  "time \<Rightarrow> 'a TaskQueue \<Rightarrow> time list \<Rightarrow> (time \<times> 'a TaskQueue) list
     \<Rightarrow> ('a PopResult \<times> 'a TaskQueue) option" where
  "pop_loop deadline s [] wakes = None"
| "pop_loop deadline s (now # clk) wakes =
     (if stop_flag s \<and> delay_tasks s = [] \<and> tasks s = [] then Some (STOPPED, s)
      else if delay_tasks s \<noteq> [] \<and> fst (pq_top (delay_tasks s)) \<le> now
      then Some (OK (snd (pq_top (delay_tasks s))), s\<lparr>delay_tasks := pq_pop (delay_tasks s)\<rparr>)
      else case tasks s of
        task # rest \<Rightarrow> Some (OK task, s\<lparr>tasks := rest\<rparr>)
      | [] \<Rightarrow>
          (let wait_until_tm =
                 (if delay_tasks s \<noteq> [] then min deadline (fst (pq_top (delay_tasks s)))
                  else deadline)
           in case wakes of
                [] \<Rightarrow> None
              | (t, s') # wakes' \<Rightarrow>
                  if wait_until_tm \<le> t
                  then (case clk of
                          [] \<Rightarrow> None
                        | now2 # clk' \<Rightarrow>
                            if deadline \<le> now2 then Some (TIMEOUT, s')
                            else pop_loop deadline s' clk' wakes')
                  else pop_loop deadline s' clk wakes'))"

definition TaskQueue_pop ::
  "int \<Rightarrow> 'a TaskQueue \<Rightarrow> time list \<Rightarrow> (time \<times> 'a TaskQueue) list
     \<Rightarrow> ('a PopResult \<times> 'a TaskQueue) option" where
  "TaskQueue_pop idle_timeout s clk wakes =
     (case clk of
        [] \<Rightarrow> None
      | entry # clk' \<Rightarrow> pop_loop (wrap64 (entry + seconds idle_timeout)) s clk' wakes)"

subsection \<open>\<^verbatim>\<open>src/thread_pool/src/_v4.hpp\<close>\<close>

definition TaskQueue_v4_stop :: "'a TaskQueue \<Rightarrow> 'a TaskQueue" where
  "TaskQueue_v4_stop s = s\<lparr>stop_flag := True\<rparr>"

definition TaskQueue_v4_size :: "'a TaskQueue \<Rightarrow> nat" where
  "TaskQueue_v4_size s = length (tasks s) + length (delay_tasks s)"

definition TaskQueue_v4_push :: "'a \<Rightarrow> 'a TaskQueue \<Rightarrow> 'a TaskQueue" where
  "TaskQueue_v4_push task s = (if stop_flag s then s else s\<lparr>tasks := tasks s @ [task]\<rparr>)"

definition TaskQueue_v4_push_front :: "'a \<Rightarrow> 'a TaskQueue \<Rightarrow> 'a TaskQueue" where
  "TaskQueue_v4_push_front task s = (if stop_flag s then s else s\<lparr>tasks := task # tasks s\<rparr>)"

definition TaskQueue_v4_push_delay :: "'a \<Rightarrow> time \<Rightarrow> 'a TaskQueue \<Rightarrow> 'a TaskQueue" where
  "TaskQueue_v4_push_delay task exec_time s =
     (if stop_flag s then s else s\<lparr>delay_tasks := pq_push (exec_time, task) (delay_tasks s)\<rparr>)"

text \<open>
  Here \<^verbatim>\<open>pop\<close> waits with \<^verbatim>\<open>cond_.wait_for(lock, wait_duration)\<close>, which reads the
  clock when it starts (\<open>start\<close>) and reports a \<^verbatim>\<open>timeout\<close> when it returns at or after
  \<open>start\<close> plus the duration. With a \<open>wait_duration\<close> that is not positive the loop
  goes round again without waiting.
\<close>

fun pop_loop_v4 ::
  "int \<Rightarrow> 'a TaskQueue \<Rightarrow> time list \<Rightarrow> (time \<times> 'a TaskQueue) list
     \<Rightarrow> ('a PopResult \<times> 'a TaskQueue) option" where
  "pop_loop_v4 idle_timeout s [] wakes = None"
| "pop_loop_v4 idle_timeout s (now # clk) wakes =
     (if delay_tasks s \<noteq> [] \<and> fst (pq_top (delay_tasks s)) \<le> now
      then Some (OK (snd (pq_top (delay_tasks s))), s\<lparr>delay_tasks := pq_pop (delay_tasks s)\<rparr>)
      else case tasks s of
        task # rest \<Rightarrow> Some (OK task, s\<lparr>tasks := rest\<rparr>)
      | [] \<Rightarrow>
          if stop_flag s \<and> tasks s = [] \<and> delay_tasks s = [] then Some (STOPPED, s)
          else
            (let wait_duration =
                   (if delay_tasks s \<noteq> []
                    then
                      (let time_until_next = wrap64 (fst (pq_top (delay_tasks s)) - now);
                           time_until_next_ms = to_milliseconds time_until_next;
                           time_until_next_ms =
                             (if time_until_next_ms < 0 then 0 else time_until_next_ms)
                       in if time_until_next_ms < seconds_to_ms idle_timeout
                          then time_until_next_ms
                          else seconds_to_ms idle_timeout)
                    else seconds_to_ms idle_timeout)
             in if wait_duration \<le> 0 then pop_loop_v4 idle_timeout s clk wakes
                else case clk of
                  [] \<Rightarrow> None
                | start # clk1 \<Rightarrow>
                    (case wakes of
                       [] \<Rightarrow> None
                     | (t, s') # wakes' \<Rightarrow>
                         (case clk1 of
                            [] \<Rightarrow> None
                          | now2 # clk2 \<Rightarrow>
                              if wrap64 (start + milliseconds wait_duration) \<le> t
                              then
                                (let no_normal_task = (tasks s' = []);
                                     no_ready_delay =
                                       (delay_tasks s' = [] \<or> now2 < fst (pq_top (delay_tasks s')))
                                 in if stop_flag s' \<and> no_normal_task \<and> delay_tasks s' = []
                                    then Some (STOPPED, s')
                                    else if no_normal_task \<and> no_ready_delay
                                            \<and> seconds_to_ms idle_timeout \<le> wait_duration
                                    then Some (TIMEOUT, s')
                                    else pop_loop_v4 idle_timeout s' clk2 wakes')
                              else pop_loop_v4 idle_timeout s' clk2 wakes'))))"

definition TaskQueue_v4_pop ::
  "int \<Rightarrow> 'a TaskQueue \<Rightarrow> time list \<Rightarrow> (time \<times> 'a TaskQueue) list
     \<Rightarrow> ('a PopResult \<times> 'a TaskQueue) option" where
  "TaskQueue_v4_pop idle_timeout s clk wakes = pop_loop_v4 idle_timeout s clk wakes"

text \<open>
  The selection order as the specification words it, for one evaluation at the clock
  reading \<open>now\<close>: a delayed task whose time has come first, else the front of the
  FIFO, else \<open>STOPPED\<close> on a stopped and empty queue; \<open>None\<close> when the caller has to
  wait.
\<close>

definition spec_select :: "time \<Rightarrow> 'a TaskQueue \<Rightarrow> ('a PopResult \<times> 'a TaskQueue) option" where
  "spec_select now s =
     (if delay_tasks s \<noteq> [] \<and> fst (pq_top (delay_tasks s)) \<le> now
      then Some (OK (snd (pq_top (delay_tasks s))), s\<lparr>delay_tasks := pq_pop (delay_tasks s)\<rparr>)
      else if tasks s \<noteq> [] then Some (OK (hd (tasks s)), s\<lparr>tasks := tl (tasks s)\<rparr>)
      else if stop_flag s \<and> delay_tasks s = [] then Some (STOPPED, s)
      else None)"

text \<open>Every task the queue holds, as a multiset.\<close>

definition all_tasks :: "'a TaskQueue \<Rightarrow> 'a multiset" where
  "all_tasks s = mset (tasks s) + mset (map snd (delay_tasks s))"

text \<open>
  What a \<^verbatim>\<open>pop\<close> that returns \<open>r\<close> and leaves the queue \<open>s'\<close> has kept of the queue
  \<open>s0\<close>: with \<open>OK\<close> the task handed out and those left are the tasks of \<open>s0\<close>, the
  heap has no entry that it had not in \<open>s0\<close> and the flag is as it was; with
  \<open>STOPPED\<close> the queue is \<open>s0\<close>, which is stopped and empty; with \<open>TIMEOUT\<close> the
  queue is \<open>s0\<close>.
\<close>

definition pop_conserves :: "'a TaskQueue \<Rightarrow> 'a PopResult \<Rightarrow> 'a TaskQueue \<Rightarrow> bool" where
  "pop_conserves s0 r s' =
     (case r of
        OK x \<Rightarrow> add_mset x (all_tasks s') = all_tasks s0
                \<and> set (delay_tasks s') \<subseteq> set (delay_tasks s0)
                \<and> stop_flag s' = stop_flag s0
      | STOPPED \<Rightarrow> s' = s0 \<and> stop_flag s0 \<and> tasks s0 = [] \<and> delay_tasks s0 = []
      | TIMEOUT \<Rightarrow> s' = s0)"

text \<open>
  A consumer, like the worker loop of the pool, on a queue that no other thread touches.
  For each of its calls of \<^verbatim>\<open>pop\<close>, \<open>calls\<close> gives the clock readings of the call and
  the instants at which its waits return; every wake-up finds the queue as the consumer
  left it. The consumer collects the tasks it is handed, in order, calls again after
  \<open>TIMEOUT\<close> and ends when \<^verbatim>\<open>pop\<close> says \<open>STOPPED\<close>; the result is these tasks and
  the queue that is left. A call that has not returned when its readings or wake-ups
  are used up hands out nothing and leaves the queue as it is. \<open>drain\<close> is the
  consumer of \<^verbatim>\<open>src/unnamed/part_005\<close> and \<open>drain_v4\<close> that of \<^verbatim>\<open>_v4.hpp\<close>.
\<close>

fun consume ::
  "('a TaskQueue \<Rightarrow> time list \<Rightarrow> (time \<times> 'a TaskQueue) list
      \<Rightarrow> ('a PopResult \<times> 'a TaskQueue) option)
     \<Rightarrow> (time list \<times> time list) list \<Rightarrow> 'a TaskQueue \<Rightarrow> 'a list \<times> 'a TaskQueue" where
  "consume pop [] s = ([], s)"
| "consume pop ((clk, ts) # calls) s =
     (case pop s clk (map (\<lambda>t. (t, s)) ts) of
        None \<Rightarrow> consume pop calls s
      | Some (OK task, s') \<Rightarrow>
          (case consume pop calls s' of (xs, s'') \<Rightarrow> (task # xs, s''))
      | Some (STOPPED, s') \<Rightarrow> ([], s')
      | Some (TIMEOUT, s') \<Rightarrow> consume pop calls s')"

definition drain ::
  "(time list \<times> time list) list \<Rightarrow> int \<Rightarrow> 'a TaskQueue \<Rightarrow> 'a list \<times> 'a TaskQueue" where
  "drain calls idle_timeout s = consume (TaskQueue_pop idle_timeout) calls s"

definition drain_v4 ::
  "(time list \<times> time list) list \<Rightarrow> int \<Rightarrow> 'a TaskQueue \<Rightarrow> 'a list \<times> 'a TaskQueue" where
  "drain_v4 calls idle_timeout s = consume (TaskQueue_v4_pop idle_timeout) calls s"

section \<open>Multi-lock acquirer (\<^verbatim>\<open>lock_all\<close> in \<^verbatim>\<open>src/unnamed/part_004\<close>, \<^verbatim>\<open>Lock\<close> in
  \<^verbatim>\<open>src/mutex/rw_lock.cpp\<close>)\<close>

text \<open>
  The lockables are addressed by numbers. A state of the mutexes gives for each the
  thread that holds it (\<open>None\<close>: free). The caller is the thread \<open>self\<close>. The other
  threads act between the caller's steps: \<open>sched\<close> lists, for each step the caller takes
  on a mutex, the events of the other threads that precede it. An event of another
  thread takes a free mutex or releases one that this thread holds; nothing a thread
  does changes a mutex that the caller holds. When \<open>sched\<close> is exhausted the others do
  nothing more.
\<close>

type_synonym mutexes = "nat \<Rightarrow> nat option"

datatype event = Acquire nat nat | Release nat nat

fun other_thread :: "nat \<Rightarrow> event \<Rightarrow> mutexes \<Rightarrow> mutexes" where
  "other_thread self (Acquire t m) \<sigma> = (if t \<noteq> self \<and> \<sigma> m = None then \<sigma>(m \<mapsto> t) else \<sigma>)"
| "other_thread self (Release t m) \<sigma> = (if t \<noteq> self \<and> \<sigma> m = Some t then \<sigma>(m := None) else \<sigma>)"

definition others_run ::
  "nat \<Rightarrow> mutexes \<times> event list list \<Rightarrow> mutexes \<times> event list list" where
  "others_run self st =
     (case snd st of
        [] \<Rightarrow> st
      | b # bs \<Rightarrow> (fold (other_thread self) b (fst st), bs))"

text \<open>
  The blocking \<^verbatim>\<open>lock()\<close> of a mutex, as \<^verbatim>\<open>std::unique_lock<Mutex1> first(m1)\<close> calls it:
  the caller takes the mutex as soon as it finds it free. On a mutex that stays held when
  the others do nothing more, it blocks for ever (\<open>None\<close>).
\<close>

fun mutex_lock ::
  "nat \<Rightarrow> nat \<Rightarrow> mutexes \<Rightarrow> event list list \<Rightarrow> (mutexes \<times> event list list) option" where
  "mutex_lock self m \<sigma> [] = (if \<sigma> m = None then Some (\<sigma>(m \<mapsto> self), []) else None)"
| "mutex_lock self m \<sigma> (b # bs) =
     (let \<sigma>' = fold (other_thread self) b \<sigma>
      in if \<sigma>' m = None then Some (\<sigma>'(m \<mapsto> self), bs) else mutex_lock self m \<sigma>' bs)"

subsection \<open>\<^verbatim>\<open>my_sync_lib::detail\<close> of \<^verbatim>\<open>src/unnamed/part_004\<close>\<close>

text \<open>
  \<^verbatim>\<open>TryLockRecursiveImpl<Tuple, Index, N>::do_try\<close> on the mutexes from \<open>Index\<close> on. The
  \<^verbatim>\<open>unique_lock first\<close> made with \<^verbatim>\<open>std::try_to_lock\<close> owns the mutex when it was free; it
  is released from the guard (\<^verbatim>\<open>first.release()\<close>) when the rest succeeded, and its
  destructor unlocks the mutex when the rest failed. The template is instantiated for
  \<open>Index < N\<close> only; the empty list is the case that \<^verbatim>\<open>if constexpr (Index + 1 < N)\<close>
  excludes.
\<close>

fun do_try ::
  "nat \<Rightarrow> nat list \<Rightarrow> mutexes \<times> event list list \<Rightarrow> bool \<times> (mutexes \<times> event list list)" where
  "do_try self [] st = (True, st)"
| "do_try self (m # ms) st =
     (case others_run self st of
        (\<sigma>, sched) \<Rightarrow>
          if \<sigma> m \<noteq> None then (False, (\<sigma>, sched))
          else
            (case (if ms \<noteq> [] then do_try self ms (\<sigma>(m \<mapsto> self), sched)
                   else (True, (\<sigma>(m \<mapsto> self), sched))) of
               (False, (\<sigma>', sched')) \<Rightarrow> (False, (\<sigma>'(m := None), sched'))
             | (True, st') \<Rightarrow> (True, st')))"

text \<open>
  One pass of the \<^verbatim>\<open>for (;;)\<close> loop of \<^verbatim>\<open>lock_all\<close>: \<open>None\<close> when the caller blocks on
  \<open>m1\<close> for ever, else whether the pass returned from \<^verbatim>\<open>lock_all\<close>, and the state it
  leaves. A pass that fails ends with \<^verbatim>\<open>yield()\<close> and the destructor of \<^verbatim>\<open>first\<close>, which
  unlocks \<open>m1\<close>.
\<close>

definition lock_all_round ::
  "nat \<Rightarrow> nat \<Rightarrow> nat list \<Rightarrow> mutexes \<Rightarrow> event list list
     \<Rightarrow> (bool \<times> (mutexes \<times> event list list)) option" where
  "lock_all_round self m1 ms \<sigma> sched =
     (case mutex_lock self m1 \<sigma> sched of
        None \<Rightarrow> None
      | Some (\<sigma>1, sched1) \<Rightarrow>
          if ms = [] then Some (True, (\<sigma>1, sched1))
          else
            (case do_try self ms (\<sigma>1, sched1) of
               (True, st) \<Rightarrow> Some (True, st)
             | (False, (\<sigma>2, sched2)) \<Rightarrow> Some (False, (\<sigma>2(m1 := None), sched2))))"

text \<open>The loop, with a bound on the number of passes: \<open>None\<close> when \<^verbatim>\<open>lock_all\<close> has not
  returned within them.\<close>

fun lock_all ::
  "nat \<Rightarrow> nat \<Rightarrow> nat \<Rightarrow> nat list \<Rightarrow> mutexes \<Rightarrow> event list list
     \<Rightarrow> (mutexes \<times> event list list) option" where
  "lock_all 0 self m1 ms \<sigma> sched = None"
| "lock_all (Suc rounds) self m1 ms \<sigma> sched =
     (case lock_all_round self m1 ms \<sigma> sched of
        None \<Rightarrow> None
      | Some (True, st) \<Rightarrow> Some st
      | Some (False, (\<sigma>', sched')) \<Rightarrow> lock_all rounds self m1 ms \<sigma>' sched')"

subsection \<open>\<^verbatim>\<open>my_std_like::detail\<close> of \<^verbatim>\<open>src/mutex/rw_lock.cpp\<close>\<close>

text \<open>
  \<^verbatim>\<open>TryLockImpl<Index>::DoTryLock\<close> reports through \<^verbatim>\<open>int& index\<close>: \<open>- 1\<close> when every
  mutex from \<open>Index\<close> on was taken, else the index of the one that was not. A guard
  keeps its mutex (\<^verbatim>\<open>lock.release()\<close>) only when \<open>index\<close> is \<open>- 1\<close>.
\<close>

fun DoTryLock ::
  "nat \<Rightarrow> int \<Rightarrow> nat list \<Rightarrow> mutexes \<times> event list list \<Rightarrow> int \<times> (mutexes \<times> event list list)" where
  "DoTryLock self Index [] st = (Index, st)"
| "DoTryLock self Index (m # ms) st =
     (case others_run self st of
        (\<sigma>, sched) \<Rightarrow>
          if \<sigma> m \<noteq> None then (Index, (\<sigma>, sched))
          else
            (case (if ms \<noteq> [] then DoTryLock self (Index + 1) ms (\<sigma>(m \<mapsto> self), sched)
                   else (- 1, (\<sigma>(m \<mapsto> self), sched))) of
               (index, (\<sigma>', sched')) \<Rightarrow>
                 if index = - 1 then (index, (\<sigma>', sched'))
                 else (index, (\<sigma>'(m := None), sched'))))"

text \<open>One pass of the \<^verbatim>\<open>while (true)\<close> loop of \<^verbatim>\<open>Lock\<close>, which takes at least two
  mutexes and treats exactly two without the recursion.\<close>

definition Lock_round ::
  "nat \<Rightarrow> nat \<Rightarrow> nat \<Rightarrow> nat list \<Rightarrow> mutexes \<Rightarrow> event list list
     \<Rightarrow> (bool \<times> (mutexes \<times> event list list)) option" where
  "Lock_round self m1 m2 m3 \<sigma> sched =
     (case mutex_lock self m1 \<sigma> sched of
        None \<Rightarrow> None
      | Some (\<sigma>1, sched1) \<Rightarrow>
          (case (if m3 \<noteq> [] then DoTryLock self 0 (m2 # m3) (\<sigma>1, sched1)
                 else (case others_run self (\<sigma>1, sched1) of
                         (\<sigma>', sched') \<Rightarrow>
                           if \<sigma>' m2 = None then (- 1, (\<sigma>'(m2 \<mapsto> self), sched'))
                           else (0, (\<sigma>', sched')))) of
             (index, (\<sigma>2, sched2)) \<Rightarrow>
               if index = - 1 then Some (True, (\<sigma>2, sched2))
               else Some (False, (\<sigma>2(m1 := None), sched2))))"

fun Lock ::
  "nat \<Rightarrow> nat \<Rightarrow> nat \<Rightarrow> nat \<Rightarrow> nat list \<Rightarrow> mutexes \<Rightarrow> event list list
     \<Rightarrow> (mutexes \<times> event list list) option" where
  "Lock 0 self m1 m2 m3 \<sigma> sched = None"
| "Lock (Suc rounds) self m1 m2 m3 \<sigma> sched =
     (case Lock_round self m1 m2 m3 \<sigma> sched of
        None \<Rightarrow> None
      | Some (True, st) \<Rightarrow> Some st
      | Some (False, (\<sigma>', sched')) \<Rightarrow> Lock rounds self m1 m2 m3 \<sigma>' sched')"

section \<open>Elastic worker pool: the constructor (\<^verbatim>\<open>ThreadPool::ThreadPool\<close> in
  \<^verbatim>\<open>src/unnamed/part_007\<close> and in \<^verbatim>\<open>src/thread_pool/src/_v4.hpp\<close>)\<close>

text \<open>
  The fields that the constructor sets: the two bounds and the idle time, of type
  \<^verbatim>\<open>int\<close>, and \<^verbatim>\<open>workers_\<close>, a map from thread ids to thread handles. The list of dead
  workers, the idle counter and the stop flag start empty, zero and false; the task
  queue is default-constructed and left out. The constructor compares the bounds and
  counts \<open>i\<close> from 0 up to \<open>min_threads\<close>, which never leaves the range of \<^verbatim>\<open>int\<close>, so the
  bounds are integers here.

  Each \<^verbatim>\<open>std::thread t(&ThreadPool::worker_loop, this)\<close> starts a thread with an id that
  no other thread has: the threads get the ids \<open>first_id\<close>, \<open>first_id + 1\<close>, ... in the
  order of their creation. \<^verbatim>\<open>emplace\<close> inserts when the key is absent.
\<close>

datatype thread = Thread nat

record ThreadPool =
  min_threads :: int
  max_threads :: int
  idle_timeout_sec :: int
  workers :: "nat \<rightharpoonup> thread"
  dead_workers :: "thread list"
  idle_threads :: int
  stopping :: bool

definition emplace :: "nat \<Rightarrow> thread \<Rightarrow> (nat \<rightharpoonup> thread) \<Rightarrow> (nat \<rightharpoonup> thread)" where
  "emplace k v ws = (if k \<in> dom ws then ws else ws(k \<mapsto> v))"

text \<open>The \<^verbatim>\<open>for\<close> loop of the constructor: \<open>i\<close> is the loop counter, \<open>next_id\<close> the id of
  the next thread to start. Parameters that share a name with a field carry a prime.\<close>

function spawn_loop :: "int \<Rightarrow> int \<Rightarrow> nat \<Rightarrow> (nat \<rightharpoonup> thread) \<Rightarrow> (nat \<rightharpoonup> thread)" where
  "spawn_loop i min_threads' next_id ws =
     (if i < min_threads'
      then spawn_loop (i + 1) min_threads' (next_id + 1) (emplace next_id (Thread next_id) ws)
      else ws)"
  by pat_completeness auto
termination
  by (relation "measure (\<lambda>(i, min_threads', next_id, ws). nat (min_threads' - i))") auto

declare spawn_loop.simps [simp del]

text \<open>Neither constructor has a failing path of its own: no argument is checked and
  nothing is thrown (a thread that the system cannot start is not considered). In \<^verbatim>\<open>part_007\<close> the loop runs to the parameter \<^verbatim>\<open>min_threads\<close>, in \<^verbatim>\<open>_v4.hpp\<close> to the
  member \<^verbatim>\<open>min_threads_\<close> that was initialised from it.\<close>

definition ThreadPool_ctor :: "int \<Rightarrow> int \<Rightarrow> int \<Rightarrow> nat \<Rightarrow> failure + ThreadPool" where
  "ThreadPool_ctor min_threads' max_threads' idle_timeout_sec' first_id =
     Inr \<lparr>min_threads = min_threads',
          max_threads = max min_threads' max_threads',
          idle_timeout_sec = idle_timeout_sec',
          workers = spawn_loop 0 min_threads' first_id Map.empty,
          dead_workers = [],
          idle_threads = 0,
          stopping = False\<rparr>"

definition ThreadPool_v4_ctor :: "int \<Rightarrow> int \<Rightarrow> int \<Rightarrow> nat \<Rightarrow> failure + ThreadPool" where
  "ThreadPool_v4_ctor min_threads' max_threads' idle_timeout_sec' first_id =
     (let p = \<lparr>min_threads = min_threads',
               max_threads = max min_threads' max_threads',
               idle_timeout_sec = idle_timeout_sec',
               workers = Map.empty,
               dead_workers = [],
               idle_threads = 0,
               stopping = False\<rparr>
      in Inr (p\<lparr>workers := spawn_loop 0 (min_threads p) first_id (workers p)\<rparr>))"

section \<open>Properties of the fair FIFO reader-writer lock\<close>

subsection \<open>Waking waiters\<close>

lemma wake_fields [simp]:
  "has_writer (wake w s) = has_writer s"
  "reader_cnt (wake w s) = reader_cnt s"
  "pending_readers (wake w s) = pending_readers s"
  "q (wake w s) = q s"
  "next_ticket (wake w s) = next_ticket s"
  by (simp_all add: wake_def)

lemma fold_wake_fields [simp]:
  "has_writer (fold wake ws s) = has_writer s"
  "reader_cnt (fold wake ws s) = reader_cnt s"
  "pending_readers (fold wake ws s) = pending_readers s"
  "q (fold wake ws s) = q s"
  "next_ticket (fold wake ws s) = next_ticket s"
  by (induction ws arbitrary: s) simp_all

lemma fold_wake_go: "go (fold wake ws s) w = (w \<in> set ws \<or> go s w)"
  by (induction ws arbitrary: s) (auto simp: wake_def)

lemma fold_wake_notified: "notified (fold wake ws s) = notified s @ ws"
  by (induction ws arbitrary: s) (auto simp: wake_def)

text \<open>The loop of the batch opener, in closed form: it splits the queue at the first
  node that is not a Read, and counts the nodes before it.\<close>

lemma pop_reads_eq:
  "pop_reads ns tw c =
     (dropWhile (\<lambda>n. mode n = Read) ns,
      tw @ batch_waiters (takeWhile (\<lambda>n. mode n = Read) ns),
      c + word_of_nat (length (takeWhile (\<lambda>n. mode n = Read) ns)))"
  by (induction ns arbitrary: tw c) (auto simp: batch_waiters_def split: option.splits)

lemma open_read_batch_has_writer [simp]:
  "has_writer (open_read_batch_and_wake_unsafe s) = has_writer s"
  by (simp add: open_read_batch_and_wake_unsafe_def split: prod.splits)

lemma fair_fifo_wake_next_has_writer [simp]:
  "has_writer (fair_fifo_wake_next s) = has_writer s"
  by (simp add: fair_fifo_wake_next_def split: list.splits option.splits)

lemma shared_mutex_wake_next_has_writer [simp]:
  "has_writer (shared_mutex_wake_next s) = has_writer s"
  by (simp add: shared_mutex_wake_next_def split: list.splits option.splits)

subsection \<open>Writer release\<close>

text \<open>In \<^verbatim>\<open>src/mutex/rw_lock.cpp\<close> the writer release clears the flag and runs the
  scheduler on the result; a lock that was held by a writer only is free afterwards.\<close>

lemma fair_fifo_unlock_clears_writer:
  "has_writer (fair_fifo_unlock s) = False
   \<and> fair_fifo_unlock s = fair_fifo_wake_next (s\<lparr>has_writer := False\<rparr>)"
  by (simp add: fair_fifo_unlock_def)

lemma fair_fifo_unlock_frees:
  "reader_cnt s = 0 \<Longrightarrow> pending_readers s = 0 \<Longrightarrow> q s = [] \<Longrightarrow>
     fst (fair_fifo_try_lock (fair_fifo_unlock s)) = True"
  by (simp add: fair_fifo_unlock_def fair_fifo_try_lock_def fair_fifo_wake_next_def)

text \<open>
  Claim C1: after any writer release (\<^verbatim>\<open>unlock\<close>) the flag \<open>has_writer\<close> is false and
  the scheduler has run; a lock held by a writer only is free after \<^verbatim>\<open>unlock\<close>, so the next
  \<^verbatim>\<open>try_lock\<close> succeeds.

  The \<^verbatim>\<open>unlock\<close> of \<^verbatim>\<open>src/1.cpp\<close> does the opposite. After it the flag is true on every
  state, so that no \<^verbatim>\<open>try_lock\<close> succeeds; on the lock that \<^verbatim>\<open>try_lock\<close> has just
  taken from its initial state, \<^verbatim>\<open>unlock\<close> changes nothing.
\<close>

theorem shared_mutex_unlock_keeps_writer:
  "has_writer (shared_mutex_unlock s) = True
   \<and> fst (shared_mutex_try_lock (shared_mutex_unlock s)) = False
   \<and> fst (shared_mutex_try_lock shared_mutex_init) = True
   \<and> shared_mutex_unlock (snd (shared_mutex_try_lock shared_mutex_init))
       = snd (shared_mutex_try_lock shared_mutex_init)"
  by (simp add: shared_mutex_unlock_def shared_mutex_try_lock_def shared_mutex_wake_next_def
      shared_mutex_init_def)

text \<open>The same on a lock that a writer holds while a reader and a writer are queued
  behind it: the writer's release leaves the flag set.\<close>

theorem shared_mutex_unlock_keeps_writer_witness:
  "has_writer (shared_mutex_unlock
      (shared_mutex_init\<lparr>has_writer := True,
         q := [\<lparr>mode = Read, ticket = 0, waiter = Some 3\<rparr>,
               \<lparr>mode = Write, ticket = 1, waiter = Some 4\<rparr>]\<rparr>)) = True"
  using shared_mutex_unlock_keeps_writer
    [of "shared_mutex_init\<lparr>has_writer := True,
         q := [\<lparr>mode = Read, ticket = 0, waiter = Some 3\<rparr>,
               \<lparr>mode = Write, ticket = 1, waiter = Some 4\<rparr>]\<rparr>"]
  by simp

subsection \<open>The scheduler on a queue headed by readers\<close>

text \<open>In \<^verbatim>\<open>src/mutex/rw_lock.cpp\<close> the scheduler, run on a free lock whose queue starts
  with a Read node, removes the longest prefix of Read nodes, sets \<open>pending_readers\<close> to
  its length, and opens the gate of and notifies exactly the waiters of that prefix, in
  queue order. Every other gate, a queued writer's too, stays as it was.\<close>

lemma fair_fifo_wake_next_read_batch:
  assumes "\<not> has_writer s" "reader_cnt s = 0" "pending_readers s = 0"
      and "q s = n # ns" "mode n = Read"
  shows "q (fair_fifo_wake_next s) = dropWhile (\<lambda>n. mode n = Read) (q s)"
    and "pending_readers (fair_fifo_wake_next s)
           = word_of_nat (length (takeWhile (\<lambda>n. mode n = Read) (q s)))"
    and "go (fair_fifo_wake_next s) w
           = (w \<in> set (batch_waiters (takeWhile (\<lambda>n. mode n = Read) (q s))) \<or> go s w)"
    and "notified (fair_fifo_wake_next s)
           = notified s @ batch_waiters (takeWhile (\<lambda>n. mode n = Read) (q s))"
  using assms
  by (simp_all add: fair_fifo_wake_next_def open_read_batch_and_wake_unsafe_def pop_reads_eq
      fold_wake_go fold_wake_notified)

lemma fair_fifo_lock_shared_arrive_init:
  "q (fair_fifo_lock_shared_arrive 7 shared_mutex_init) = []
   \<and> pending_readers (fair_fifo_lock_shared_arrive 7 shared_mutex_init) = 1
   \<and> go (fair_fifo_lock_shared_arrive 7 shared_mutex_init) 7 = True
   \<and> notified (fair_fifo_lock_shared_arrive 7 shared_mutex_init) = [7]"
  by (simp add: fair_fifo_lock_shared_arrive_def fair_fifo_wake_next_def shared_mutex_init_def
      open_read_batch_and_wake_unsafe_def wake_def)

lemma shared_mutex_wake_next_read_head:
  "q s = n # ns \<Longrightarrow> mode n = Read \<Longrightarrow> shared_mutex_wake_next s = s"
  by (simp add: shared_mutex_wake_next_def)

text \<open>
  Claim C2: when the scheduler runs on a free lock (no writer, no active or pending
  reader) whose queue head is a Read node, it removes the longest prefix of Read nodes,
  sets \<open>pending_readers\<close> to the length of that prefix and opens the gate of, and
  signals, every waiter of the prefix; it wakes no writer.

  The scheduler of \<^verbatim>\<open>src/1.cpp\<close> does none of this. A first reader arriving at a
  fresh lock in \<^verbatim>\<open>lock_shared\<close> (Waiter at address 7) leaves its node in the queue,
  \<open>pending_readers\<close> at 0 and its own gate closed, with nobody notified, and running the
  scheduler again changes nothing: the reader sleeps on a free lock.
\<close>

theorem shared_mutex_wake_next_skips_readers:
  "q (shared_mutex_lock_shared_arrive 7 shared_mutex_init)
     = [\<lparr>mode = Read, ticket = 0, waiter = Some 7\<rparr>]
   \<and> has_writer (shared_mutex_lock_shared_arrive 7 shared_mutex_init) = False
   \<and> reader_cnt (shared_mutex_lock_shared_arrive 7 shared_mutex_init) = 0
   \<and> pending_readers (shared_mutex_lock_shared_arrive 7 shared_mutex_init) = 0
   \<and> go (shared_mutex_lock_shared_arrive 7 shared_mutex_init) 7 = False
   \<and> notified (shared_mutex_lock_shared_arrive 7 shared_mutex_init) = []
   \<and> shared_mutex_wake_next (shared_mutex_lock_shared_arrive 7 shared_mutex_init)
       = shared_mutex_lock_shared_arrive 7 shared_mutex_init"
  by (simp add: shared_mutex_lock_shared_arrive_def shared_mutex_wake_next_def
      shared_mutex_init_def)

text \<open>In particular the arriving reader's gate is closed while the lock is free.\<close>

theorem shared_mutex_wake_next_skips_readers_witness:
  "go (shared_mutex_lock_shared_arrive 7 shared_mutex_init) 7 = False
   \<and> has_writer (shared_mutex_lock_shared_arrive 7 shared_mutex_init) = False"
  using shared_mutex_wake_next_skips_readers by simp

subsection \<open>The non-blocking acquisitions\<close>

text \<open>
  Claim C3, as the code has it: in both files \<^verbatim>\<open>try_lock\<close> returns true exactly when
  there is no active writer, no active reader, no admitted reader and nobody queued;
  \<^verbatim>\<open>try_lock_shared\<close> returns true exactly when there is no active writer, no admitted
  reader (\<open>pending_readers = 0\<close>) and nobody queued, whatever \<open>reader_cnt\<close> is: a
  reader may join the readers that are already inside.
\<close>

theorem try_lock_conditions:
  "fst (fair_fifo_try_lock s)
     = (\<not> has_writer s \<and> reader_cnt s = 0 \<and> pending_readers s = 0 \<and> q s = [])
   \<and> fst (shared_mutex_try_lock s)
     = (\<not> has_writer s \<and> reader_cnt s = 0 \<and> pending_readers s = 0 \<and> q s = [])
   \<and> fst (fair_fifo_try_lock_shared s)
     = (\<not> has_writer s \<and> pending_readers s = 0 \<and> q s = [])
   \<and> fst (shared_mutex_try_lock_shared s)
     = (\<not> has_writer s \<and> pending_readers s = 0 \<and> q s = [])"
  by (auto simp: fair_fifo_try_lock_def shared_mutex_try_lock_def
      fair_fifo_try_lock_shared_def shared_mutex_try_lock_shared_def)

text \<open>At the state a first \<^verbatim>\<open>try_lock_shared\<close> leaves (one active reader) the
  exclusive attempt fails and the shared one succeeds.\<close>

theorem try_lock_conditions_witness:
  "fst (fair_fifo_try_lock (snd (fair_fifo_try_lock_shared shared_mutex_init))) = False
   \<and> fst (fair_fifo_try_lock_shared (snd (fair_fifo_try_lock_shared shared_mutex_init))) = True"
  using try_lock_conditions [of "snd (fair_fifo_try_lock_shared shared_mutex_init)"]
  by (simp add: fair_fifo_try_lock_shared_def shared_mutex_init_def)

text \<open>With one reader inside (the state after a first \<^verbatim>\<open>try_lock_shared\<close> on a fresh
  lock) \<open>reader_cnt\<close> is 1, and a second \<^verbatim>\<open>try_lock_shared\<close> returns true, in both
  files.\<close>

theorem try_lock_shared_joins_readers:
  "reader_cnt (snd (fair_fifo_try_lock_shared shared_mutex_init)) = 1
   \<and> fst (fair_fifo_try_lock_shared (snd (fair_fifo_try_lock_shared shared_mutex_init))) = True
   \<and> reader_cnt (snd (shared_mutex_try_lock_shared shared_mutex_init)) = 1
   \<and> fst (shared_mutex_try_lock_shared (snd (shared_mutex_try_lock_shared shared_mutex_init)))
       = True"
  by (simp add: fair_fifo_try_lock_shared_def shared_mutex_try_lock_shared_def
      shared_mutex_init_def)
section \<open>Properties of the timed mutex\<close>

text \<open>
  Claim C4, as the code has it: \<^verbatim>\<open>TimedLock::unlock\<close> checks nothing. On every state,
  held or not, it fails in no way: it returns normally, leaves the flag false and has
  called \<^verbatim>\<open>notify_one\<close> exactly once, after clearing the flag. On a lock that is not
  held it reports no error and leaves the state as it was; the lock can then be taken:
  \<^verbatim>\<open>try_lock\<close> returns true and \<^verbatim>\<open>lock\<close> returns at once.
\<close>

theorem TimedLock_unlock_unchecked:
  "(\<forall>e. TimedLock_unlock s \<noteq> Inl e)
   \<and> (\<exists>s'. TimedLock_unlock s = Inr (s', [notify_one])
          \<and> \<not> flag s'
          \<and> (\<not> flag s \<longrightarrow> s' = s)
          \<and> TimedLock_try_lock s' = (True, s'\<lparr>flag := True\<rparr>)
          \<and> TimedLock_lock s' obs = Some (s'\<lparr>flag := True\<rparr>))"
  by (cases obs) (simp_all add: TimedLock_unlock_def TimedLock_try_lock_def TimedLock_lock_def)

text \<open>A held lock is released and one waiter is signalled.\<close>

theorem TimedLock_unlock_unchecked_witness:
  "TimedLock_unlock \<lparr>flag = True\<rparr> = Inr (\<lparr>flag = False\<rparr>, [notify_one])
   \<and> TimedLock_try_lock \<lparr>flag = False\<rparr> = (True, \<lparr>flag = True\<rparr>)"
  using TimedLock_unlock_unchecked [of "\<lparr>flag = True\<rparr>" "[]"]
  by (auto simp: TimedLock_unlock_def)

text \<open>On the lock as constructed (not held), \<^verbatim>\<open>unlock\<close> returns normally: no failure
  is reported.\<close>

theorem TimedLock_unlock_not_held:
  "TimedLock_unlock \<lparr>flag = False\<rparr> = Inr (\<lparr>flag = False\<rparr>, [notify_one])"
  by (simp add: TimedLock_unlock_def)

section \<open>Timed acquisition with a deadline in the past\<close>

text \<open>
  Claim C5, as the code has it. Let the deadline \<open>abs_time\<close> be before the instant
  \<open>now\<close> of the call, and let the first timed wait, if there is one, return at
  \<open>t \<ge> now\<close> with the state \<open>s'\<close>. Then \<^verbatim>\<open>try_lock_until\<close> returns after at most that
  one wait, which times out at once; later wake-ups play no part. It returns true,
  taking the lock, when the lock can be taken at entry (free; for the reentrant mutex
  also when the caller owns it) or is free when the expired wait returns; it returns
  false exactly when the lock is held at entry and still held then.
\<close>

theorem try_lock_until_past:
  assumes "abs_time < now" and "now \<le> t"
  shows "TimedLock_try_lock_until abs_time s ((t, s') # obs)
           = Some (if \<not> flag s then (True, s\<lparr>flag := True\<rparr>)
                   else if \<not> flag s' then (True, s'\<lparr>flag := True\<rparr>)
                   else (False, s'))
         \<and> RecursiveTimedLock_try_lock_until this_id abs_time r ((t, r') # robs)
           = Some (if cnt r = 0 then (True, r\<lparr>owner := Some this_id, cnt := 1\<rparr>)
                   else if owner r = Some this_id then (True, r\<lparr>cnt := cnt r + 1\<rparr>)
                   else if cnt r' = 0 then (True, r'\<lparr>owner := Some this_id, cnt := 1\<rparr>)
                   else (False, r'))"
  using assms
  by (simp add: TimedLock_try_lock_until_def RecursiveTimedLock_try_lock_until_def)

text \<open>Deadline 10, call at 20, the wait returns at 25: a lock that another thread
  holds throughout is not taken.\<close>

theorem try_lock_until_past_witness:
  "TimedLock_try_lock_until 10 \<lparr>flag = True\<rparr> [(25, \<lparr>flag = True\<rparr>)]
     = Some (False, \<lparr>flag = True\<rparr>)
   \<and> RecursiveTimedLock_try_lock_until 2 10 \<lparr>owner = Some 1, cnt = 1\<rparr>
        [(25, \<lparr>owner = Some 1, cnt = 1\<rparr>)] = Some (False, \<lparr>owner = Some 1, cnt = 1\<rparr>)"
  using try_lock_until_past [of 10 20 25 "\<lparr>flag = True\<rparr>" "\<lparr>flag = True\<rparr>" "[]" 2
      "\<lparr>owner = Some 1, cnt = 1\<rparr>" "\<lparr>owner = Some 1, cnt = 1\<rparr>" "[]"]
  by simp

text \<open>With the same past deadline 10 (every wake-up is at 25), a free lock is taken and
  \<^verbatim>\<open>try_lock_until\<close> returns true, for both classes.\<close>

theorem try_lock_until_past_free:
  "TimedLock_try_lock_until 10 \<lparr>flag = False\<rparr> [(25, \<lparr>flag = False\<rparr>)]
     = Some (True, \<lparr>flag = True\<rparr>)
   \<and> RecursiveTimedLock_try_lock_until 2 10 RecursiveLock_init [(25, RecursiveLock_init)]
     = Some (True, \<lparr>owner = Some 2, cnt = 1\<rparr>)"
  by (simp add: TimedLock_try_lock_until_def RecursiveTimedLock_try_lock_until_def
      RecursiveLock_init_def)

section \<open>Properties of the reentrant mutexes\<close>

subsection \<open>Counting in 64 bits\<close>

lemma unat_inc: "(x :: 64 word) \<noteq> - 1 \<Longrightarrow> unat (x + 1) = unat x + 1"
  using unatSuc [of x] by (simp add: eq_neg_iff_add_eq_0 add.commute)

lemma unat_dec: "(x :: 64 word) \<noteq> 0 \<Longrightarrow> unat (x - 1) + 1 = unat x"
  by (simp add: unat_minus_one unat_gt_0 Suc_leI)

subsection \<open>Waiting\<close>

lemma cv_wait_cases:
  "cv_wait pred s obs = Some s' \<Longrightarrow> pred s' \<and> (s' = s \<or> s' \<in> set obs)"
  by (induction pred s obs rule: cv_wait.induct) (auto split: if_splits)

lemma cv_wait_now: "pred s \<Longrightarrow> cv_wait pred s obs = Some s"
  by (cases obs) simp_all

lemma cv_wait_until_cases:
  "cv_wait_until pred abs_time s obs = Some (ok, s') \<Longrightarrow>
     (ok = pred s') \<and> (s' = s \<or> s' \<in> snd ` set obs)"
  by (induction pred abs_time s obs rule: cv_wait_until.induct) (auto split: if_splits)

subsection \<open>Each operation keeps the invariant\<close>

lemma enter_inv:
  "recursive_inv s' \<Longrightarrow> cnt s' \<noteq> - 1 \<Longrightarrow> cnt s' = 0 \<or> owner s' = Some this_id \<Longrightarrow>
     recursive_inv ((if cnt s' = 0 then s'\<lparr>owner := Some this_id\<rparr> else s')\<lparr>cnt := cnt s' + 1\<rparr>)"
  by (auto simp: recursive_inv_def eq_neg_iff_add_eq_0)

lemma RecursiveLock_lock_inv:
  assumes "recursive_inv s" "cnt s \<noteq> - 1" "\<forall>x \<in> set obs. recursive_inv x \<and> cnt x \<noteq> - 1"
    and "RecursiveLock_lock this_id s obs = Some s'"
  shows "recursive_inv s'"
proof -
  from assms(4) obtain s1
    where w: "cv_wait (\<lambda>s. cnt s = 0 \<or> owner s = Some this_id) s obs = Some s1"
      and s': "s' = (if cnt s1 = 0 then s1\<lparr>owner := Some this_id\<rparr> else s1)\<lparr>cnt := cnt s1 + 1\<rparr>"
    by (auto simp: RecursiveLock_lock_def split: option.splits)
  from cv_wait_cases [OF w]
  have p: "cnt s1 = 0 \<or> owner s1 = Some this_id" and m: "s1 = s \<or> s1 \<in> set obs"
    by auto
  from m assms(1-3) have "recursive_inv s1" "cnt s1 \<noteq> - 1" by auto
  with p show ?thesis unfolding s' by (rule enter_inv [rotated 2])
qed

lemma RecursiveTimedLock_lock_eq: "RecursiveTimedLock_lock = RecursiveLock_lock"
  by (simp add: fun_eq_iff RecursiveTimedLock_lock_def RecursiveLock_lock_def)

lemma RecursiveLock_try_lock_inv:
  "recursive_inv s \<Longrightarrow> cnt s \<noteq> - 1 \<Longrightarrow>
     recursive_inv (snd (RecursiveLock_try_lock this_id b s))"
  by (auto simp: RecursiveLock_try_lock_def recursive_inv_def eq_neg_iff_add_eq_0)

lemma RecursiveTimedLock_try_lock_inv:
  "recursive_inv s \<Longrightarrow> cnt s \<noteq> - 1 \<Longrightarrow>
     recursive_inv (snd (RecursiveTimedLock_try_lock this_id s))"
  by (auto simp: RecursiveTimedLock_try_lock_def recursive_inv_def eq_neg_iff_add_eq_0)

lemma RecursiveLock_unlock_inv:
  "recursive_inv s \<Longrightarrow> RecursiveLock_unlock this_id s = Inr s' \<Longrightarrow> recursive_inv s'"
  by (auto simp: RecursiveLock_unlock_def recursive_inv_def Let_def split: if_splits)

lemma RecursiveTimedLock_unlock_inv:
  "recursive_inv s \<Longrightarrow> RecursiveTimedLock_unlock this_id s = Inr s' \<Longrightarrow> recursive_inv s'"
  by (auto simp: RecursiveTimedLock_unlock_def recursive_inv_def Let_def split: if_splits)

lemma RecursiveTimedLock_try_lock_until_inv:
  assumes "recursive_inv s" "cnt s \<noteq> - 1" "\<forall>x \<in> set tobs. recursive_inv (snd x)"
    and "RecursiveTimedLock_try_lock_until this_id abs_time s tobs = Some (ok, s')"
  shows "recursive_inv s'"
proof (cases "cnt s = 0 \<or> owner s = Some this_id")
  case True
  with assms(1,2,4) show ?thesis
    by (auto simp: RecursiveTimedLock_try_lock_until_def recursive_inv_def eq_neg_iff_add_eq_0
        split: if_splits)
next
  case False
  with assms(4) obtain b s1
    where w: "cv_wait_until (\<lambda>s. cnt s = 0) abs_time s tobs = Some (b, s1)"
      and r: "(ok, s') = (if \<not> b then (False, s1)
                          else (True, s1\<lparr>owner := Some this_id, cnt := 1\<rparr>))"
    by (auto simp: RecursiveTimedLock_try_lock_until_def split: option.splits if_splits)
  from cv_wait_until_cases [OF w] assms(1,3) have "recursive_inv s1" by auto
  with r show ?thesis by (auto simp: recursive_inv_def split: if_splits)
qed

subsection \<open>The owner counts up and down by one\<close>

lemma owner_relock:
  assumes "recursive_inv s" "owner s = Some this_id"
  shows "RecursiveLock_lock this_id s obs = Some (s\<lparr>cnt := cnt s + 1\<rparr>)"
    and "RecursiveTimedLock_lock this_id s obs = Some (s\<lparr>cnt := cnt s + 1\<rparr>)"
    and "RecursiveLock_try_lock this_id True s = (True, s\<lparr>cnt := cnt s + 1\<rparr>)"
    and "RecursiveTimedLock_try_lock this_id s = (True, s\<lparr>cnt := cnt s + 1\<rparr>)"
    and "RecursiveTimedLock_try_lock_until this_id abs_time s tobs
           = Some (True, s\<lparr>cnt := cnt s + 1\<rparr>)"
  using assms
  by (simp_all add: RecursiveLock_lock_def RecursiveTimedLock_lock_def cv_wait_now
      RecursiveLock_try_lock_def RecursiveTimedLock_try_lock_def
      RecursiveTimedLock_try_lock_until_def recursive_inv_def)

lemma owner_unlock:
  assumes "recursive_inv s" "owner s = Some this_id"
  shows "\<exists>s'. RecursiveLock_unlock this_id s = Inr s' \<and> cnt s' = cnt s - 1"
    and "\<exists>s'. RecursiveTimedLock_unlock this_id s = Inr s' \<and> cnt s' = cnt s - 1"
    and "unat (cnt s - 1) + 1 = unat (cnt s)"
proof -
  from assms have nz: "cnt s \<noteq> 0" by (simp add: recursive_inv_def)
  then show "unat (cnt s - 1) + 1 = unat (cnt s)" by (rule unat_dec)
  from nz assms(2) show "\<exists>s'. RecursiveLock_unlock this_id s = Inr s' \<and> cnt s' = cnt s - 1"
    by (simp add: RecursiveLock_unlock_def Let_def)
  from nz assms(2)
  show "\<exists>s'. RecursiveTimedLock_unlock this_id s = Inr s' \<and> cnt s' = cnt s - 1"
    by (simp add: RecursiveTimedLock_unlock_def Let_def)
qed

subsection \<open>Three locks, three unlocks\<close>

lemma RecursiveLock_scenario:
  "RecursiveLock_lock 1 RecursiveLock_init [] = Some \<lparr>owner = Some 1, cnt = 1\<rparr>
   \<and> RecursiveLock_lock 1 \<lparr>owner = Some 1, cnt = 1\<rparr> [] = Some \<lparr>owner = Some 1, cnt = 2\<rparr>
   \<and> RecursiveLock_lock 1 \<lparr>owner = Some 1, cnt = 2\<rparr> [] = Some \<lparr>owner = Some 1, cnt = 3\<rparr>
   \<and> RecursiveLock_unlock 1 \<lparr>owner = Some 1, cnt = 3\<rparr> = Inr \<lparr>owner = Some 1, cnt = 2\<rparr>
   \<and> RecursiveLock_unlock 1 \<lparr>owner = Some 1, cnt = 2\<rparr> = Inr \<lparr>owner = Some 1, cnt = 1\<rparr>
   \<and> RecursiveLock_try_lock 2 True \<lparr>owner = Some 1, cnt = 1\<rparr>
       = (False, \<lparr>owner = Some 1, cnt = 1\<rparr>)
   \<and> RecursiveLock_unlock 1 \<lparr>owner = Some 1, cnt = 1\<rparr> = Inr \<lparr>owner = None, cnt = 0\<rparr>"
  by (simp add: RecursiveLock_lock_def RecursiveLock_unlock_def RecursiveLock_try_lock_def
      RecursiveLock_init_def)

lemma RecursiveTimedLock_scenario:
  "RecursiveTimedLock_lock 1 RecursiveLock_init [] = Some \<lparr>owner = Some 1, cnt = 1\<rparr>
   \<and> RecursiveTimedLock_lock 1 \<lparr>owner = Some 1, cnt = 1\<rparr> [] = Some \<lparr>owner = Some 1, cnt = 2\<rparr>
   \<and> RecursiveTimedLock_lock 1 \<lparr>owner = Some 1, cnt = 2\<rparr> [] = Some \<lparr>owner = Some 1, cnt = 3\<rparr>
   \<and> RecursiveTimedLock_unlock 1 \<lparr>owner = Some 1, cnt = 3\<rparr> = Inr \<lparr>owner = Some 1, cnt = 2\<rparr>
   \<and> RecursiveTimedLock_unlock 1 \<lparr>owner = Some 1, cnt = 2\<rparr> = Inr \<lparr>owner = Some 1, cnt = 1\<rparr>
   \<and> RecursiveTimedLock_try_lock 2 \<lparr>owner = Some 1, cnt = 1\<rparr>
       = (False, \<lparr>owner = Some 1, cnt = 1\<rparr>)
   \<and> RecursiveTimedLock_unlock 1 \<lparr>owner = Some 1, cnt = 1\<rparr> = Inr \<lparr>owner = None, cnt = 0\<rparr>"
  by (simp add: RecursiveTimedLock_lock_def RecursiveTimedLock_unlock_def
      RecursiveTimedLock_try_lock_def RecursiveLock_init_def)

subsection \<open>The invariant, the counting and the scenario\<close>

text \<open>
  Claim C6. The count is a \<^verbatim>\<open>uint64_t\<close>; as both sources say in their comments, its
  overflow is not handled, so the claim is for counts below the largest 64-bit value
  (\<open>- 1\<close> is the word \<open>2\<^sup>6\<^sup>4 - 1\<close>). Take a state that satisfies the invariant
  \<open>count = 0 \<longleftrightarrow> owner = none\<close> and whose count is below that value, and let the
  states a blocked caller finds at its wake-ups satisfy the same. Then every operation of \<^verbatim>\<open>RecursiveLock\<close> and of
  \<^verbatim>\<open>RecursiveTimedLock\<close> that returns leaves a state that satisfies the invariant. On a
  lock that the caller owns, \<^verbatim>\<open>lock\<close>, \<^verbatim>\<open>try_lock\<close> and \<^verbatim>\<open>try_lock_until\<close> succeed
  at once and raise the count by exactly one, and \<^verbatim>\<open>unlock\<close> succeeds and lowers it by
  exactly one. One thread that locks three times and unlocks three times ends at
  \<open>(none, 0)\<close>; after its second unlock the count is 1 and \<^verbatim>\<open>try_lock\<close> by thread 2
  returns false.
\<close>

theorem recursive_lock_invariant:
  assumes inv: "recursive_inv s" and room: "cnt s \<noteq> - 1"
    and obs: "\<forall>x \<in> set obs. recursive_inv x \<and> cnt x \<noteq> - 1"
    and tobs: "\<forall>x \<in> set tobs. recursive_inv (snd x)"
  shows
    "(\<forall>s'. RecursiveLock_lock this_id s obs = Some s' \<longrightarrow> recursive_inv s')
   \<and> recursive_inv (snd (RecursiveLock_try_lock this_id owns_lock s))
   \<and> (\<forall>s'. RecursiveLock_unlock this_id s = Inr s' \<longrightarrow> recursive_inv s')
   \<and> (\<forall>s'. RecursiveTimedLock_lock this_id s obs = Some s' \<longrightarrow> recursive_inv s')
   \<and> recursive_inv (snd (RecursiveTimedLock_try_lock this_id s))
   \<and> (\<forall>ok s'. RecursiveTimedLock_try_lock_until this_id abs_time s tobs = Some (ok, s')
         \<longrightarrow> recursive_inv s')
   \<and> (\<forall>s'. RecursiveTimedLock_unlock this_id s = Inr s' \<longrightarrow> recursive_inv s')
   \<and> (owner s = Some this_id \<longrightarrow>
         RecursiveLock_lock this_id s obs = Some (s\<lparr>cnt := cnt s + 1\<rparr>)
       \<and> RecursiveLock_try_lock this_id True s = (True, s\<lparr>cnt := cnt s + 1\<rparr>)
       \<and> RecursiveTimedLock_lock this_id s obs = Some (s\<lparr>cnt := cnt s + 1\<rparr>)
       \<and> RecursiveTimedLock_try_lock this_id s = (True, s\<lparr>cnt := cnt s + 1\<rparr>)
       \<and> RecursiveTimedLock_try_lock_until this_id abs_time s tobs
            = Some (True, s\<lparr>cnt := cnt s + 1\<rparr>)
       \<and> unat (cnt s + 1) = unat (cnt s) + 1
       \<and> (\<exists>s'. RecursiveLock_unlock this_id s = Inr s' \<and> cnt s' = cnt s - 1)
       \<and> (\<exists>s'. RecursiveTimedLock_unlock this_id s = Inr s' \<and> cnt s' = cnt s - 1)
       \<and> unat (cnt s - 1) + 1 = unat (cnt s))
   \<and> RecursiveLock_lock 1 RecursiveLock_init [] = Some \<lparr>owner = Some 1, cnt = 1\<rparr>
   \<and> RecursiveLock_lock 1 \<lparr>owner = Some 1, cnt = 1\<rparr> [] = Some \<lparr>owner = Some 1, cnt = 2\<rparr>
   \<and> RecursiveLock_lock 1 \<lparr>owner = Some 1, cnt = 2\<rparr> [] = Some \<lparr>owner = Some 1, cnt = 3\<rparr>
   \<and> RecursiveLock_unlock 1 \<lparr>owner = Some 1, cnt = 3\<rparr> = Inr \<lparr>owner = Some 1, cnt = 2\<rparr>
   \<and> RecursiveLock_unlock 1 \<lparr>owner = Some 1, cnt = 2\<rparr> = Inr \<lparr>owner = Some 1, cnt = 1\<rparr>
   \<and> RecursiveLock_try_lock 2 True \<lparr>owner = Some 1, cnt = 1\<rparr>
       = (False, \<lparr>owner = Some 1, cnt = 1\<rparr>)
   \<and> RecursiveLock_unlock 1 \<lparr>owner = Some 1, cnt = 1\<rparr> = Inr \<lparr>owner = None, cnt = 0\<rparr>
   \<and> RecursiveTimedLock_lock 1 RecursiveLock_init [] = Some \<lparr>owner = Some 1, cnt = 1\<rparr>
   \<and> RecursiveTimedLock_lock 1 \<lparr>owner = Some 1, cnt = 1\<rparr> [] = Some \<lparr>owner = Some 1, cnt = 2\<rparr>
   \<and> RecursiveTimedLock_lock 1 \<lparr>owner = Some 1, cnt = 2\<rparr> [] = Some \<lparr>owner = Some 1, cnt = 3\<rparr>
   \<and> RecursiveTimedLock_unlock 1 \<lparr>owner = Some 1, cnt = 3\<rparr> = Inr \<lparr>owner = Some 1, cnt = 2\<rparr>
   \<and> RecursiveTimedLock_unlock 1 \<lparr>owner = Some 1, cnt = 2\<rparr> = Inr \<lparr>owner = Some 1, cnt = 1\<rparr>
   \<and> RecursiveTimedLock_try_lock 2 \<lparr>owner = Some 1, cnt = 1\<rparr>
       = (False, \<lparr>owner = Some 1, cnt = 1\<rparr>)
   \<and> RecursiveTimedLock_unlock 1 \<lparr>owner = Some 1, cnt = 1\<rparr> = Inr \<lparr>owner = None, cnt = 0\<rparr>"
proof -
  have keep:
    "\<forall>s'. RecursiveLock_lock this_id s obs = Some s' \<longrightarrow> recursive_inv s'"
    "recursive_inv (snd (RecursiveLock_try_lock this_id owns_lock s))"
    "\<forall>s'. RecursiveLock_unlock this_id s = Inr s' \<longrightarrow> recursive_inv s'"
    "\<forall>s'. RecursiveTimedLock_lock this_id s obs = Some s' \<longrightarrow> recursive_inv s'"
    "recursive_inv (snd (RecursiveTimedLock_try_lock this_id s))"
    "\<forall>ok s'. RecursiveTimedLock_try_lock_until this_id abs_time s tobs = Some (ok, s')
         \<longrightarrow> recursive_inv s'"
    "\<forall>s'. RecursiveTimedLock_unlock this_id s = Inr s' \<longrightarrow> recursive_inv s'"
    using RecursiveLock_lock_inv [OF inv room obs] RecursiveLock_try_lock_inv [OF inv room]
      RecursiveLock_unlock_inv [OF inv] RecursiveTimedLock_try_lock_inv [OF inv room]
      RecursiveTimedLock_try_lock_until_inv [OF inv room tobs]
      RecursiveTimedLock_unlock_inv [OF inv]
    by (simp_all add: RecursiveTimedLock_lock_eq)
  have own: "owner s = Some this_id \<longrightarrow>
         RecursiveLock_lock this_id s obs = Some (s\<lparr>cnt := cnt s + 1\<rparr>)
       \<and> RecursiveLock_try_lock this_id True s = (True, s\<lparr>cnt := cnt s + 1\<rparr>)
       \<and> RecursiveTimedLock_lock this_id s obs = Some (s\<lparr>cnt := cnt s + 1\<rparr>)
       \<and> RecursiveTimedLock_try_lock this_id s = (True, s\<lparr>cnt := cnt s + 1\<rparr>)
       \<and> RecursiveTimedLock_try_lock_until this_id abs_time s tobs
            = Some (True, s\<lparr>cnt := cnt s + 1\<rparr>)
       \<and> unat (cnt s + 1) = unat (cnt s) + 1
       \<and> (\<exists>s'. RecursiveLock_unlock this_id s = Inr s' \<and> cnt s' = cnt s - 1)
       \<and> (\<exists>s'. RecursiveTimedLock_unlock this_id s = Inr s' \<and> cnt s' = cnt s - 1)
       \<and> unat (cnt s - 1) + 1 = unat (cnt s)"
    using owner_relock [OF inv] owner_unlock [OF inv] unat_inc [OF room] by blast
  from keep own RecursiveLock_scenario RecursiveTimedLock_scenario show ?thesis
    by blast
qed

text \<open>The theorem at a lock that thread 1 holds twice, with one wake-up that finds the
  lock free.\<close>

theorem recursive_lock_invariant_witness:
  "recursive_inv (snd (RecursiveLock_try_lock 1 True \<lparr>owner = Some 1, cnt = 2\<rparr>))
   \<and> RecursiveTimedLock_lock 1 \<lparr>owner = Some 1, cnt = 2\<rparr> [RecursiveLock_init]
       = Some \<lparr>owner = Some 1, cnt = 3\<rparr>"
  using recursive_lock_invariant [of "\<lparr>owner = Some 1, cnt = 2\<rparr>" "[RecursiveLock_init]"
      "[(5, RecursiveLock_init)]" 1 True 0]
  by (simp add: recursive_inv_def RecursiveLock_init_def)
section \<open>Properties of the task queue\<close>

subsection \<open>The heap of delayed tasks: \<^verbatim>\<open>std::__push_heap\<close>\<close>


lemma parent_less [simp]: "0 < i \<Longrightarrow> (i - Suc 0) div 2 < i"
  by arith

lemma push_heap_loop_length [simp]: "length (push_heap_loop v h t x) = length v"
  by (induction v h t x rule: push_heap_loop.induct) (subst push_heap_loop.simps, simp)

lemma push_heap_loop_above:
  "h < j \<Longrightarrow> push_heap_loop v h t x ! j = v ! j"
proof (induction v h t x rule: push_heap_loop.induct)
  case (1 v h t x)
  show ?case
  proof (cases "t < h \<and> TimeTask_less (v ! ((h - 1) div 2)) x")
    case True
    then have "(h - 1) div 2 < j" using "1.prems" by (simp add: less_trans [OF parent_less])
    from "1.IH" [OF True this] True "1.prems" show ?thesis
      by (subst push_heap_loop.simps) simp
  next
    case False
    with "1.prems" show ?thesis by (subst push_heap_loop.simps) auto
  qed
qed

lemma push_heap_loop_mset:
  "h < length v \<Longrightarrow> mset (push_heap_loop v h t x) = mset (v[h := x])"
proof (induction v h t x rule: push_heap_loop.induct)
  case (1 v h t x)
  show ?case
  proof (cases "t < h \<and> TimeTask_less (v ! ((h - 1) div 2)) x")
    case True
    let ?p = "(h - 1) div 2"
    from True have ph: "?p < h" by simp
    with "1.prems" have pl: "?p < length v" by simp
    have "mset (push_heap_loop v h t x) = mset (v[h := v ! ?p, ?p := x])"
      using "1.IH" [OF True] True pl by (subst push_heap_loop.simps) simp
    also have "v[h := v ! ?p, ?p := x] = (v[h := x])[h := (v[h := x]) ! ?p, ?p := (v[h := x]) ! h]"
      using ph "1.prems" by simp
    also have "mset \<dots> = mset (v[h := x])"
      using pl "1.prems" by (intro mset_swap) simp_all
    finally show ?thesis .
  next
    case False
    then show ?thesis by (subst push_heap_loop.simps) auto
  qed
qed


subsection \<open>The heap of delayed tasks: \<^verbatim>\<open>std::__adjust_heap\<close>\<close>


lemma adjust_heap_loop_length [simp]: "length (fst (adjust_heap_loop v h len)) = length v"
proof (induction v h len rule: adjust_heap_loop.induct)
  case (1 v h len)
  show ?case
    using "1.IH" by (subst adjust_heap_loop.simps) (simp add: Let_def)
qed

lemma adjust_heap_loop_hole:
  "h < len \<Longrightarrow> h \<le> snd (adjust_heap_loop v h len) \<and> snd (adjust_heap_loop v h len) < len
     \<and> \<not> snd (adjust_heap_loop v h len) < (len - 1) div 2"
proof (induction v h len rule: adjust_heap_loop.induct)
  case (1 v h len)
  show ?case
  proof (cases "h < (len - 1) div 2")
    case True
    then have "2 * (h + 1) < len" by arith
    with "1.IH" [OF True refl refl] True show ?thesis
      by (subst (1 2 3) adjust_heap_loop.simps) (auto simp: Let_def)
  next
    case False
    with "1.prems" show ?thesis by (subst (1 2 3) adjust_heap_loop.simps) simp
  qed
qed

lemma adjust_heap_loop_above:
  "len \<le> j \<Longrightarrow> fst (adjust_heap_loop v h len) ! j = v ! j"
proof (induction v h len rule: adjust_heap_loop.induct)
  case (1 v h len)
  show ?case
  proof (cases "h < (len - 1) div 2")
    case True
    then have "h \<noteq> j" using "1.prems" by arith
    with "1.IH" [OF True refl refl "1.prems"] True show ?thesis
      by (subst adjust_heap_loop.simps) (auto simp: Let_def)
  next
    case False
    then show ?thesis by (subst adjust_heap_loop.simps) simp
  qed
qed

lemma adjust_heap_loop_mset:
  "h < len \<Longrightarrow> len \<le> length v \<Longrightarrow>
     mset ((fst (adjust_heap_loop v h len))[snd (adjust_heap_loop v h len) := x]) = mset (v[h := x])"
proof (induction v h len rule: adjust_heap_loop.induct)
  case (1 v h len)
  show ?case
  proof (cases "h < (len - 1) div 2")
    case True
    define c where "c = (if TimeTask_less (v ! (2 * (h + 1))) (v ! (2 * (h + 1) - 1))
                         then 2 * (h + 1) - 1 else 2 * (h + 1))"
    from True have "2 * (h + 1) < len" by arith
    then have cl: "c < len" and hc: "h < c" unfolding c_def by auto
    have r: "adjust_heap_loop v h len = adjust_heap_loop (v[h := v ! c]) c len"
      using True by (subst adjust_heap_loop.simps) (simp add: Let_def c_def)
    from "1.IH" [OF True refl, of c] cl "1.prems"(2)
    have "mset ((fst (adjust_heap_loop (v[h := v ! c]) c len))
                 [snd (adjust_heap_loop (v[h := v ! c]) c len) := x])
          = mset (v[h := v ! c, c := x])"
      by (simp add: c_def)
    also have "v[h := v ! c, c := x] = (v[h := x])[h := (v[h := x]) ! c, c := (v[h := x]) ! h]"
      using hc cl "1.prems" by simp
    also have "mset \<dots> = mset (v[h := x])"
      using hc cl "1.prems" by (intro mset_swap) simp_all
    finally show ?thesis by (simp add: r)
  next
    case False
    then show ?thesis by (subst (1 2) adjust_heap_loop.simps) simp
  qed
qed


lemma adjust_heap_length [simp]: "length (adjust_heap v h len x) = length v"
  using adjust_heap_loop_length [of v h len]
  by (cases "adjust_heap_loop v h len") (auto simp: adjust_heap_def)

lemma adjust_heap_above:
  assumes "h < len" "len \<le> j"
  shows "adjust_heap v h len x ! j = v ! j"
proof -
  obtain v1 h1 where r: "adjust_heap_loop v h len = (v1, h1)" by (cases "adjust_heap_loop v h len")
  from adjust_heap_loop_hole [OF assms(1), of v] r have h1: "h1 < len" by simp
  from adjust_heap_loop_above [OF assms(2), of v h] r have v1: "v1 ! j = v ! j" by simp
  show ?thesis
  proof (cases "len mod 2 = 0 \<and> h1 = (len - 2) div 2")
    case True
    with h1 have "2 * (h1 + 1) - 1 < len" by arith
    with True r v1 h1 assms(2) show ?thesis
      by (simp add: adjust_heap_def push_heap_loop_above)
  next
    case False
    with r v1 h1 assms(2) show ?thesis
      by (auto simp: adjust_heap_def push_heap_loop_above)
  qed
qed

lemma adjust_heap_mset:
  assumes "h < len" "len \<le> length v"
  shows "mset (adjust_heap v h len x) = mset (v[h := x])"
proof -
  obtain v1 h1 where r: "adjust_heap_loop v h len = (v1, h1)" by (cases "adjust_heap_loop v h len")
  from adjust_heap_loop_hole [OF assms(1), of v] r have h1: "h1 < len" by simp
  from adjust_heap_loop_length [of v h len] r have l1: "length v1 = length v" by simp
  from adjust_heap_loop_mset [OF assms, of x] r
  have m: "mset (v1[h1 := x]) = mset (v[h := x])" by simp
  show ?thesis
  proof (cases "len mod 2 = 0 \<and> h1 = (len - 2) div 2")
    case True
    let ?c = "2 * (h1 + 1) - 1"
    from True h1 have cl: "?c < len" and hc: "h1 < ?c" by arith+
    have "mset (adjust_heap v h len x) = mset (v1[h1 := v1 ! ?c, ?c := x])"
      using True r cl assms(2) l1 by (simp add: adjust_heap_def push_heap_loop_mset)
    also have "v1[h1 := v1 ! ?c, ?c := x]
                 = (v1[h1 := x])[h1 := (v1[h1 := x]) ! ?c, ?c := (v1[h1 := x]) ! h1]"
      using hc cl h1 assms(2) l1 by simp
    also have "mset \<dots> = mset (v1[h1 := x])"
      using hc cl h1 assms(2) l1 by (intro mset_swap) simp_all
    finally show ?thesis using m by simp
  next
    case False
    with r h1 assms(2) l1 m show ?thesis
      by (auto simp: adjust_heap_def push_heap_loop_mset)
  qed
qed


subsection \<open>The heap of delayed tasks: \<^verbatim>\<open>emplace\<close>, \<^verbatim>\<open>pop\<close> and \<^verbatim>\<open>top\<close>\<close>

lemma pq_push_length [simp]: "length (pq_push e v) = Suc (length v)"
  by (simp add: pq_push_def push_heap_def)

lemma pq_push_mset [simp]: "mset (pq_push e v) = add_mset e (mset v)"
  by (simp add: pq_push_def push_heap_def push_heap_loop_mset)





lemma pop_heap_length [simp]: "length (pop_heap v) = length v"
  by (simp add: pop_heap_def)

lemma pq_pop_length: "v \<noteq> [] \<Longrightarrow> Suc (length (pq_pop v)) = length v"
  by (simp add: pq_pop_def)

lemma pop_heap_mset [simp]: "mset (pop_heap v) = mset v"
proof (cases "1 < length v")
  case True
  let ?n = "length v - 1"
  from True have ne: "v \<noteq> []" by auto
  have "mset (pop_heap v) = mset (v[?n := v ! 0, 0 := v ! ?n])"
    using True by (simp add: pop_heap_def adjust_heap_mset)
  also have "\<dots> = mset v" using True ne by (intro mset_swap) simp_all
  finally show ?thesis .
next
  case False
  then show ?thesis by (simp add: pop_heap_def)
qed

lemma pop_heap_last: "v \<noteq> [] \<Longrightarrow> last (pop_heap v) = hd v"
proof (cases "1 < length v")
  case True
  assume "v \<noteq> []"
  then have "pop_heap v \<noteq> []" by (simp flip: length_greater_0_conv)
  then have "last (pop_heap v) = pop_heap v ! (length v - 1)"
    by (simp add: last_conv_nth)
  also have "\<dots> = v ! 0"
    using True by (simp add: pop_heap_def adjust_heap_above)
  finally show ?thesis using \<open>v \<noteq> []\<close> by (simp add: hd_conv_nth)
next
  case False
  assume "v \<noteq> []"
  with False obtain x where "v = [x]" by (cases v) auto
  then show ?thesis by (simp add: pop_heap_def)
qed

lemma pq_pop_mset: "v \<noteq> [] \<Longrightarrow> add_mset (pq_top v) (mset (pq_pop v)) = mset v"
proof -
  assume v: "v \<noteq> []"
  then have ne: "pop_heap v \<noteq> []" by (simp flip: length_greater_0_conv)
  have "add_mset (last (pop_heap v)) (mset (butlast (pop_heap v))) = mset (pop_heap v)"
    using append_butlast_last_id [OF ne, THEN arg_cong, of mset] by simp
  with v show ?thesis by (simp add: pq_pop_def pq_top_def pop_heap_last)
qed


lemma pq_top_in: "v \<noteq> [] \<Longrightarrow> pq_top v \<in> set v"
  by (simp add: pq_top_def)


subsection \<open>The selection order\<close>

lemma pq_pop_tasks:
  "v \<noteq> [] \<Longrightarrow> add_mset (snd (pq_top v)) (mset (map snd (pq_pop v))) = mset (map snd v)"
  using pq_pop_mset [of v, THEN arg_cong, of "image_mset snd"] by simp

lemma pq_pop_subset: "set (pq_pop v) \<subseteq> set v"
proof (cases "v = []")
  case True
  then show ?thesis by (simp add: pq_pop_def pop_heap_def)
next
  case False
  from pq_pop_mset [OF False] have "set_mset (mset (pq_pop v)) \<subseteq> set_mset (mset v)"
    by (metis set_mset_add_mset_insert subset_insertI)
  then show ?thesis by simp
qed



lemma spec_select_stopped:
  "(spec_select now s = Some (STOPPED, s'))
     = (s' = s \<and> stop_flag s \<and> tasks s = [] \<and> delay_tasks s = [])"
  by (auto simp: spec_select_def)

lemma spec_select_none:
  "(spec_select now s = None)
     = (\<not> (delay_tasks s \<noteq> [] \<and> fst (pq_top (delay_tasks s)) \<le> now) \<and> tasks s = []
        \<and> \<not> (stop_flag s \<and> delay_tasks s = []))"
  by (auto simp: spec_select_def)



lemma spec_select_conserves: "spec_select now s = Some (r, s') \<Longrightarrow> pop_conserves s r s'"
  using pq_pop_tasks [of "delay_tasks s"] pq_pop_subset [of "delay_tasks s"]
  by (cases "tasks s")
     (auto simp: spec_select_def pop_conserves_def all_tasks_def split: if_splits)

subsection \<open>The loop of \<^verbatim>\<open>pop\<close>, evaluation by evaluation\<close>

lemma pop_loop_select:
  "pop_loop deadline s (now # clk) wakes =
     (case spec_select now s of
        Some r \<Rightarrow> Some r
      | None \<Rightarrow>
          (case wakes of
             [] \<Rightarrow> None
           | (t, s') # wakes' \<Rightarrow>
               if (if delay_tasks s = [] then deadline
                   else min deadline (fst (pq_top (delay_tasks s)))) \<le> t
               then (case clk of
                       [] \<Rightarrow> None
                     | now2 # clk' \<Rightarrow>
                         if deadline \<le> now2 then Some (TIMEOUT, s')
                         else pop_loop deadline s' clk' wakes')
               else pop_loop deadline s' clk wakes'))"
  by (cases "tasks s") (auto simp: spec_select_def Let_def split: list.splits)

lemma pop_loop_v4_select:
  "pop_loop_v4 idle s (now # clk) wakes =
     (case spec_select now s of
        Some r \<Rightarrow> Some r
      | None \<Rightarrow>
          (let wait_duration =
                 (if delay_tasks s = [] then seconds_to_ms idle
                  else min (max 0 (to_milliseconds (wrap64 (fst (pq_top (delay_tasks s)) - now))))
                           (seconds_to_ms idle))
           in if wait_duration \<le> 0 then pop_loop_v4 idle s clk wakes
              else case clk of
                [] \<Rightarrow> None
              | start # clk1 \<Rightarrow>
                  (case wakes of
                     [] \<Rightarrow> None
                   | (t, s') # wakes' \<Rightarrow>
                       (case clk1 of
                          [] \<Rightarrow> None
                        | now2 # clk2 \<Rightarrow>
                            if wrap64 (start + milliseconds wait_duration) \<le> t
                            then (case spec_select now2 s' of
                                    None \<Rightarrow>
                                      if seconds_to_ms idle \<le> wait_duration
                                      then Some (TIMEOUT, s')
                                      else pop_loop_v4 idle s' clk2 wakes'
                                  | Some (r, s'') \<Rightarrow>
                                      if r = STOPPED then Some (STOPPED, s')
                                      else pop_loop_v4 idle s' clk2 wakes')
                            else pop_loop_v4 idle s' clk2 wakes'))))"
proof (cases "spec_select now s")
  case (Some r)
  then show ?thesis
    by (cases "tasks s") (auto simp: spec_select_def split: if_splits)
next
  case None
  then have nd: "\<not> (delay_tasks s \<noteq> [] \<and> fst (pq_top (delay_tasks s)) \<le> now)"
    and nt: "tasks s = []" and ns: "\<not> (stop_flag s \<and> delay_tasks s = [])"
    by (auto simp: spec_select_none)
  have after: "\<And>now2 (s' :: 'a TaskQueue).
      (case spec_select now2 s' of
         None \<Rightarrow> if seconds_to_ms idle \<le> w then Some (TIMEOUT, s') else k
       | Some (r, s'') \<Rightarrow> if r = STOPPED then Some (STOPPED, s') else k)
      = (if stop_flag s' \<and> tasks s' = [] \<and> delay_tasks s' = [] then Some (STOPPED, s')
         else if tasks s' = [] \<and> (delay_tasks s' = [] \<or> now2 < fst (pq_top (delay_tasks s')))
                 \<and> seconds_to_ms idle \<le> w
         then Some (TIMEOUT, s') else k)"
    for w and k :: "('a PopResult \<times> 'a TaskQueue) option"
    by (auto simp: spec_select_def)
  have wait: "(if delay_tasks s \<noteq> []
               then (let time_until_next = wrap64 (fst (pq_top (delay_tasks s)) - now);
                         time_until_next_ms = to_milliseconds time_until_next;
                         time_until_next_ms =
                           (if time_until_next_ms < 0 then 0 else time_until_next_ms)
                     in if time_until_next_ms < seconds_to_ms idle then time_until_next_ms
                        else seconds_to_ms idle)
               else seconds_to_ms idle)
            = (if delay_tasks s = [] then seconds_to_ms idle
               else min (max 0 (to_milliseconds (wrap64 (fst (pq_top (delay_tasks s)) - now))))
                        (seconds_to_ms idle))"
    by (simp add: Let_def min_def max_def)
  have c1: "(delay_tasks s \<noteq> [] \<and> fst (pq_top (delay_tasks s)) \<le> now) = False"
    and c3: "(stop_flag s \<and> tasks s = [] \<and> delay_tasks s = []) = False"
    using nd ns by simp_all
  show ?thesis
    apply (subst pop_loop_v4.simps(2))
    apply (simp only: wait c1 if_False)
    apply (simp only: nt list.case)
    apply (simp only: c3 [unfolded nt] if_False None option.case)
    apply (simp only: Let_def after cong: list.case_cong if_cong)
    done
qed

lemma pop_now:
  "TaskQueue_pop idle s [entry, now] [] = spec_select now s"
  by (simp add: TaskQueue_pop_def pop_loop_select del: pop_loop.simps(2) split: option.splits)

lemma pop_v4_now:
  "TaskQueue_v4_pop idle s [now] [] = spec_select now s"
  by (simp add: TaskQueue_v4_pop_def pop_loop_v4_select Let_def del: pop_loop_v4.simps(2)
      split: option.splits)

subsection \<open>No \<^verbatim>\<open>pop\<close> loses a task\<close>

lemma pop_loop_conserves:
  "pop_loop deadline s clk wakes = Some (r, s') \<Longrightarrow>
     \<exists>s0 \<in> set (s # map snd wakes). pop_conserves s0 r s'"
proof (induction deadline s clk wakes rule: pop_loop.induct)
  case (1 deadline s wakes)
  then show ?case by simp
next
  case (2 deadline s now clk wakes)
  note run = "2.prems" [unfolded pop_loop_select]
  show ?case
  proof (cases "spec_select now s")
    case (Some r0)
    with run have "spec_select now s = Some (r, s')" by simp
    from spec_select_conserves [OF this] show ?thesis by simp
  next
    case None
    then have nd: "\<not> (delay_tasks s \<noteq> [] \<and> fst (pq_top (delay_tasks s)) \<le> now)"
      and nt: "tasks s = []" and ns: "\<not> (stop_flag s \<and> delay_tasks s = [])"
      by (auto simp: spec_select_none)
    from run None obtain t s1 wakes' where w: "wakes = (t, s1) # wakes'"
      by (cases wakes) auto
    show ?thesis
    proof (cases "(if delay_tasks s \<noteq> [] then min deadline (fst (pq_top (delay_tasks s)))
                   else deadline) \<le> t")
      case True
      with run None w obtain now2 clk' where c: "clk = now2 # clk'"
        by (cases clk) (auto split: if_splits)
      show ?thesis
      proof (cases "deadline \<le> now2")
        case late: True
        with run None w c True have "r = TIMEOUT" "s' = s1" by (auto split: if_splits)
        with w show ?thesis by (simp add: pop_conserves_def)
      next
        case False
        with run None w c True have rec: "pop_loop deadline s1 clk' wakes' = Some (r, s')"
          by (auto split: if_splits)
        from "2.IH"(1) [OF _ _ nt refl w refl _ c False rec] nd ns True w
        show ?thesis by auto
      qed
    next
      case False
      with run None w have rec: "pop_loop deadline s1 clk wakes' = Some (r, s')"
        by (auto split: if_splits)
      from "2.IH"(2) [OF _ _ nt refl w refl _ rec] nd ns False w
      show ?thesis by auto
    qed
  qed
qed

lemma pop_loop_v4_conserves:
  "pop_loop_v4 idle s clk wakes = Some (r, s') \<Longrightarrow>
     \<exists>s0 \<in> set (s # map snd wakes). pop_conserves s0 r s'"
proof (induction "length clk" arbitrary: s clk wakes rule: less_induct)
  case less
  from less.prems obtain now clk0 where clk: "clk = now # clk0"
    by (cases clk) auto
  note run = less.prems [unfolded clk pop_loop_v4_select]
  show ?case
  proof (cases "spec_select now s")
    case (Some r0)
    with run have "spec_select now s = Some (r, s')" by simp
    from spec_select_conserves [OF this] show ?thesis by simp
  next
    case None
    define P where "P = (\<lambda>w. \<exists>s0 \<in> set w. pop_conserves s0 r s')"
    have mono: "\<And>w1 w2. P w1 \<Longrightarrow> set w1 \<subseteq> set w2 \<Longrightarrow> P w2"
      unfolding P_def by blast
    have ih: "\<And>clk' s1 wakes'. pop_loop_v4 idle s1 clk' wakes' = Some (r, s') \<Longrightarrow>
        length clk' < length clk \<Longrightarrow> P (s1 # map snd wakes')"
      unfolding P_def using less.hyps by blast
    have stopped: "\<And>s0 w now2 s2. spec_select now2 s' = Some (STOPPED, s2) \<Longrightarrow>
        r = STOPPED \<Longrightarrow> P (s0 # s' # w)"
      unfolding P_def using spec_select_conserves [of _ s' STOPPED]
      by (auto simp: pop_conserves_def)
    have timeout: "\<And>s0 w. r = TIMEOUT \<Longrightarrow> P (s0 # s' # w)"
      unfolding P_def by (simp add: pop_conserves_def)
    have "P (s # map snd wakes)"
      using run None unfolding clk
      apply (auto simp: Let_def split: if_splits list.splits option.splits
          simp del: pop_loop_v4.simps
          dest!: ih [unfolded clk] elim!: mono)
      apply (rule timeout, assumption | erule stopped, assumption)+
      done
    then show ?thesis by (simp add: P_def)
  qed
qed

lemma TaskQueue_pop_conserves:
  assumes "TaskQueue_pop idle s clk wakes = Some (r, s')
           \<or> TaskQueue_v4_pop idle s clk wakes = Some (r, s')"
  shows "\<exists>s0 \<in> set (s # map snd wakes). pop_conserves s0 r s'"
proof (cases "TaskQueue_v4_pop idle s clk wakes = Some (r, s')")
  case True
  then show ?thesis
    using pop_loop_v4_conserves [of idle s clk wakes r s'] by (simp add: TaskQueue_v4_pop_def)
next
  case False
  with assms obtain entry clk' where "clk = entry # clk'"
    and "pop_loop (wrap64 (entry + seconds idle)) s clk' wakes = Some (r, s')"
    by (cases clk) (auto simp: TaskQueue_pop_def)
  then show ?thesis using pop_loop_conserves by blast
qed

subsection \<open>Draining\<close>

lemma all_tasks_size: "size (all_tasks s) = TaskQueue_size s"
  by (simp add: all_tasks_def TaskQueue_size_def)

lemma pop_conserves_OK:
  assumes "pop_conserves s (OK x) s1"
  shows "Suc (TaskQueue_size s1) = TaskQueue_size s"
    and "set (delay_tasks s1) \<subseteq> set (delay_tasks s)"
    and "stop_flag s1 = stop_flag s"
proof -
  from assms have "add_mset x (all_tasks s1) = all_tasks s" by (simp add: pop_conserves_def)
  from this [THEN arg_cong, of size] show "Suc (TaskQueue_size s1) = TaskQueue_size s"
    by (simp add: all_tasks_size)
  from assms show "set (delay_tasks s1) \<subseteq> set (delay_tasks s)" "stop_flag s1 = stop_flag s"
    by (simp_all add: pop_conserves_def)
qed

lemma spec_select_ready:
  assumes "TaskQueue_size s \<noteq> 0" and "\<forall>e \<in> set (delay_tasks s). fst e \<le> now"
  shows "\<exists>x s1. spec_select now s = Some (OK x, s1)"
proof (cases "delay_tasks s = []")
  case True
  with assms(1) show ?thesis by (simp add: spec_select_def TaskQueue_size_def)
next
  case False
  with assms(2) have "fst (pq_top (delay_tasks s)) \<le> now"
    using pq_top_in [OF False] by blast
  with False show ?thesis by (simp add: spec_select_def)
qed

text \<open>The consumer with any \<^verbatim>\<open>pop\<close> that loses no task.\<close>

lemma consume_conserves:
  assumes keeps: "\<And>s clk ts r s'. pop s clk (map (\<lambda>t. (t, s)) ts) = Some (r, s')
                    \<Longrightarrow> pop_conserves s r s'"
  shows "consume pop calls s = (xs, s') \<Longrightarrow>
           mset xs + all_tasks s' = all_tasks s \<and> stop_flag s' = stop_flag s"
proof (induction calls arbitrary: s xs s')
  case Nil
  then show ?case by simp
next
  case (Cons call calls)
  obtain clk ts where call: "call = (clk, ts)" by (cases call)
  note run = Cons.prems [unfolded call consume.simps]
  show ?case
  proof (cases "pop s clk (map (\<lambda>t. (t, s)) ts)")
    case None
    with run Cons.IH show ?thesis by simp
  next
    case (Some a)
    obtain r s1 where a: "a = (r, s1)" by (cases a)
    from keeps [OF Some [unfolded a]] have c: "pop_conserves s r s1" .
    show ?thesis
    proof (cases r)
      case (OK x)
      obtain xs1 s2 where d: "consume pop calls s1 = (xs1, s2)"
        by (cases "consume pop calls s1")
      with run Some a OK have "xs = x # xs1" "s' = s2" by simp_all
      with Cons.IH [OF d] c OK show ?thesis by (auto simp: pop_conserves_def)
    next
      case STOPPED
      with run Some a c show ?thesis by (auto simp: pop_conserves_def all_tasks_def)
    next
      case TIMEOUT
      with run Some a c Cons.IH [of s1 xs s'] show ?thesis by (simp add: pop_conserves_def)
    qed
  qed
qed

lemma consume_late:
  assumes at_once: "\<And>s. pop s clk (map (\<lambda>t. (t, s)) ts) = spec_select late s"
    and "stop_flag s" and "\<forall>e \<in> set (delay_tasks s). fst e \<le> late"
    and "TaskQueue_size s \<le> n"
  shows "\<exists>xs s'. consume pop (replicate n (clk, ts)) s = (xs, s')
           \<and> tasks s' = [] \<and> delay_tasks s' = []"
  using assms(2-)
proof (induction n arbitrary: s)
  case 0
  then show ?case by (simp add: TaskQueue_size_def)
next
  case (Suc n)
  show ?case
  proof (cases "TaskQueue_size s = 0")
    case True
    with Suc.prems(1) have "spec_select late s = Some (STOPPED, s)"
      by (simp add: spec_select_stopped TaskQueue_size_def)
    with True show ?thesis by (simp add: at_once TaskQueue_size_def)
  next
    case False
    from spec_select_ready [OF False Suc.prems(2)] obtain x s1
      where sel: "spec_select late s = Some (OK x, s1)" by blast
    from pop_conserves_OK [OF spec_select_conserves [OF sel]] Suc.prems
    have "stop_flag s1" "\<forall>e \<in> set (delay_tasks s1). fst e \<le> late" "TaskQueue_size s1 \<le> n"
      by auto
    from Suc.IH [OF this] obtain xs s'
      where "consume pop (replicate n (clk, ts)) s1 = (xs, s')" "tasks s' = []"
        "delay_tasks s' = []"
      by blast
    with sel show ?thesis by (simp add: at_once)
  qed
qed

lemma consume_early:
  assumes keeps: "\<And>s clk ts r s'. pop s clk (map (\<lambda>t. (t, s)) ts) = Some (r, s')
                    \<Longrightarrow> pop_conserves s r s'"
    and at_once: "\<And>s. pop s clk (map (\<lambda>t. (t, s)) ts) = spec_select late s"
    and "stop_flag s" and "\<forall>e \<in> set (delay_tasks s). fst e \<le> late"
    and "TaskQueue_size s \<le> n"
  shows "\<exists>xs s'. consume pop (early @ replicate n (clk, ts)) s = (xs, s')
           \<and> tasks s' = [] \<and> delay_tasks s' = []"
  using assms(3-)
proof (induction early arbitrary: s)
  case Nil
  from consume_late [where pop = pop and clk = clk and ts = ts and late = late and n = n,
      OF at_once Nil]
  show ?case by simp
next
  case (Cons call early)
  obtain clk1 ts1 where call: "call = (clk1, ts1)" by (cases call)
  show ?case
  proof (cases "pop s clk1 (map (\<lambda>t. (t, s)) ts1)")
    case None
    with Cons.IH [OF Cons.prems] call show ?thesis by simp
  next
    case (Some a)
    obtain r s1 where a: "a = (r, s1)" by (cases a)
    from keeps [OF Some [unfolded a]] have c: "pop_conserves s r s1" .
    show ?thesis
    proof (cases r)
      case (OK x)
      from pop_conserves_OK [OF c [unfolded OK]] Cons.prems
      have "stop_flag s1" "\<forall>e \<in> set (delay_tasks s1). fst e \<le> late" "TaskQueue_size s1 \<le> n"
        by auto
      from Cons.IH [OF this] obtain xs s'
        where "consume pop (early @ replicate n (clk, ts)) s1 = (xs, s')" "tasks s' = []"
          "delay_tasks s' = []"
        by blast
      with Some a OK call show ?thesis by simp
    next
      case STOPPED
      with c have "s1 = s" "tasks s = []" "delay_tasks s = []"
        by (simp_all add: pop_conserves_def)
      with Some a STOPPED call show ?thesis by simp
    next
      case TIMEOUT
      with c have "s1 = s" by (simp add: pop_conserves_def)
      with Cons.IH [OF Cons.prems] Some a TIMEOUT call show ?thesis by simp
    qed
  qed
qed

text \<open>The two consumers.\<close>

lemma quiet_pop_conserves:
  "TaskQueue_pop idle s clk (map (\<lambda>t. (t, s)) ts) = Some (r, s') \<Longrightarrow> pop_conserves s r s'"
  "TaskQueue_v4_pop idle s clk (map (\<lambda>t. (t, s)) ts) = Some (r, s') \<Longrightarrow> pop_conserves s r s'"
  using TaskQueue_pop_conserves [of idle s clk "map (\<lambda>t. (t, s)) ts" r s']
  by auto

lemma drain_conserves:
  "drain calls idle s = (xs, s') \<or> drain_v4 calls idle s = (xs, s') \<Longrightarrow>
     mset xs + all_tasks s' = all_tasks s \<and> stop_flag s' = stop_flag s"
  using consume_conserves [of "TaskQueue_pop idle" calls s xs s', OF quiet_pop_conserves(1)]
    consume_conserves [of "TaskQueue_v4_pop idle" calls s xs s', OF quiet_pop_conserves(2)]
  by (auto simp: drain_def drain_v4_def)

lemma drain_stopped:
  assumes "\<forall>e \<in> set (delay_tasks s). fst e \<le> late"
  shows "\<exists>xs s'. drain (early @ replicate (TaskQueue_size s) ([late, late], [])) idle
                   (TaskQueue_stop s) = (xs, s')
           \<and> mset xs = all_tasks s \<and> tasks s' = [] \<and> delay_tasks s' = [] \<and> stop_flag s'
           \<and> TaskQueue_pop idle s' [late, late] [] = Some (STOPPED, s')"
proof -
  let ?s = "s\<lparr>stop_flag := True\<rparr>"
  have "stop_flag ?s" "\<forall>e \<in> set (delay_tasks ?s). fst e \<le> late"
    "TaskQueue_size ?s \<le> TaskQueue_size s"
    using assms by (simp_all add: TaskQueue_size_def)
  have "\<exists>xs s'. consume (TaskQueue_pop idle)
                   (early @ replicate (TaskQueue_size s) ([late, late], [])) ?s = (xs, s')
           \<and> tasks s' = [] \<and> delay_tasks s' = []"
  proof (rule consume_early [where late = late])
    show "\<And>s clk ts r s'. TaskQueue_pop idle s clk (map (\<lambda>t. (t, s)) ts) = Some (r, s')
            \<Longrightarrow> pop_conserves s r s'"
      by (rule quiet_pop_conserves(1))
    show "\<And>s. TaskQueue_pop idle s [late, late] (map (\<lambda>t. (t, s)) []) = spec_select late s"
      by (simp add: pop_now)
  qed fact+
  then obtain xs s'
    where d: "drain (early @ replicate (TaskQueue_size s) ([late, late], [])) idle ?s = (xs, s')"
      and e: "tasks s' = []" "delay_tasks s' = []"
    by (auto simp: drain_def)
  from drain_conserves [OF disjI1, OF d] e have "mset xs = all_tasks s" "stop_flag s'"
    by (simp_all add: all_tasks_def)
  with d e show ?thesis
    by (simp add: pop_now spec_select_stopped TaskQueue_stop_def)
qed

lemma drain_v4_stopped:
  assumes "\<forall>e \<in> set (delay_tasks s). fst e \<le> late"
  shows "\<exists>xs s'. drain_v4 (early @ replicate (TaskQueue_v4_size s) ([late], [])) idle
                   (TaskQueue_v4_stop s) = (xs, s')
           \<and> mset xs = all_tasks s \<and> tasks s' = [] \<and> delay_tasks s' = [] \<and> stop_flag s'
           \<and> TaskQueue_v4_pop idle s' [late] [] = Some (STOPPED, s')"
proof -
  let ?s = "s\<lparr>stop_flag := True\<rparr>"
  have "stop_flag ?s" "\<forall>e \<in> set (delay_tasks ?s). fst e \<le> late"
    "TaskQueue_size ?s \<le> TaskQueue_size s"
    using assms by (simp_all add: TaskQueue_size_def)
  have "\<exists>xs s'. consume (TaskQueue_v4_pop idle)
                   (early @ replicate (TaskQueue_size s) ([late], [])) ?s = (xs, s')
           \<and> tasks s' = [] \<and> delay_tasks s' = []"
  proof (rule consume_early [where late = late])
    show "\<And>s clk ts r s'. TaskQueue_v4_pop idle s clk (map (\<lambda>t. (t, s)) ts) = Some (r, s')
            \<Longrightarrow> pop_conserves s r s'"
      by (rule quiet_pop_conserves(2))
    show "\<And>s. TaskQueue_v4_pop idle s [late] (map (\<lambda>t. (t, s)) []) = spec_select late s"
      by (simp add: pop_v4_now)
  qed fact+
  then obtain xs s'
    where d: "drain_v4 (early @ replicate (TaskQueue_size s) ([late], [])) idle ?s = (xs, s')"
      and e: "tasks s' = []" "delay_tasks s' = []"
    by (auto simp: drain_v4_def)
  from drain_conserves [OF disjI2, OF d] e have "mset xs = all_tasks s" "stop_flag s'"
    by (simp_all add: all_tasks_def)
  with d e show ?thesis
    by (simp add: pop_v4_now spec_select_stopped TaskQueue_v4_stop_def TaskQueue_size_def
        TaskQueue_v4_size_def)
qed

subsection \<open>What \<^verbatim>\<open>pop\<close> hands out\<close>




subsection \<open>After \<^verbatim>\<open>stop\<close>\<close>

text \<open>
  Claim C8: once \<^verbatim>\<open>stop\<close> has set the flag, \<^verbatim>\<open>push\<close>, \<^verbatim>\<open>push_priority\<close>
  (\<^verbatim>\<open>push_front\<close> in \<^verbatim>\<open>_v4.hpp\<close>) and \<^verbatim>\<open>push_delay\<close> return the queue unchanged, and
  the tasks enqueued before remain drainable by \<^verbatim>\<open>pop\<close> until both structures are
  empty.

  \<^verbatim>\<open>stop\<close> changes the flag only. No \<^verbatim>\<open>pop\<close> loses a task: whatever it returns, after
  any number of waits, it has kept (\<open>pop_conserves\<close>) the queue it was called on or
  the queue it found at one of its wake-ups, so that with \<open>OK\<close> the task handed out
  and the tasks left are the tasks of that queue, and with \<open>STOPPED\<close> or \<open>TIMEOUT\<close>
  the queue is left as it was, \<open>STOPPED\<close> being returned on a stopped and empty queue
  only. A \<^verbatim>\<open>pop\<close> that cannot wait returns what the selection order says at its clock
  reading; on a stopped queue whose FIFO is empty and whose delayed tasks are not yet
  due it has not returned: the tasks stay in the heap and \<open>STOPPED\<close> is not said.
  A consumer on a queue that no other thread touches, whatever the clock readings and
  the wake-ups of its calls, is handed tasks of the queue only, and those it is not
  handed are still in the queue. When, on a stopped queue, it goes on to call \<^verbatim>\<open>pop\<close>
  after the deadlines of the delayed tasks have passed, as often as the queue held
  tasks, it has been handed every task of the queue, each once, the queue is left empty
  and the next \<^verbatim>\<open>pop\<close> returns \<open>STOPPED\<close>.
\<close>

theorem stopped_queue_discards_and_drains:
  "(stop_flag s \<longrightarrow>
        TaskQueue_push x s = s \<and> TaskQueue_push_priority x s = s
      \<and> TaskQueue_push_delay x t s = s
      \<and> TaskQueue_v4_push x s = s \<and> TaskQueue_v4_push_front x s = s
      \<and> TaskQueue_v4_push_delay x t s = s)
   \<and> TaskQueue_stop s = s\<lparr>stop_flag := True\<rparr>
   \<and> TaskQueue_v4_stop s = s\<lparr>stop_flag := True\<rparr>
   \<and> (\<forall>r s'. TaskQueue_pop idle s clk wakes = Some (r, s')
             \<or> TaskQueue_v4_pop idle s clk wakes = Some (r, s')
        \<longrightarrow> (\<exists>s0 \<in> set (s # map snd wakes). pop_conserves s0 r s'))
   \<and> TaskQueue_pop idle s [entry, now] [] = spec_select now s
   \<and> TaskQueue_v4_pop idle s [now] [] = spec_select now s
   \<and> (\<forall>r s'. spec_select now s = Some (r, s') \<longrightarrow> pop_conserves s r s')
   \<and> (stop_flag s \<and> tasks s = [] \<and> delay_tasks s \<noteq> [] \<and> now < fst (pq_top (delay_tasks s))
        \<longrightarrow> TaskQueue_pop idle s [entry, now] [] = None
          \<and> TaskQueue_v4_pop idle s [now] [] = None)
   \<and> (\<forall>xs s'. drain calls idle s = (xs, s') \<or> drain_v4 calls idle s = (xs, s')
        \<longrightarrow> mset xs + all_tasks s' = all_tasks s \<and> stop_flag s' = stop_flag s)
   \<and> ((\<forall>e \<in> set (delay_tasks s). fst e \<le> late) \<longrightarrow>
        (\<exists>xs s'. drain (early @ replicate (TaskQueue_size s) ([late, late], [])) idle
                   (TaskQueue_stop s) = (xs, s')
           \<and> mset xs = all_tasks s
           \<and> tasks s' = [] \<and> delay_tasks s' = [] \<and> stop_flag s'
           \<and> TaskQueue_pop idle s' [late, late] [] = Some (STOPPED, s'))
      \<and> (\<exists>xs s'. drain_v4 (early @ replicate (TaskQueue_v4_size s) ([late], [])) idle
                   (TaskQueue_v4_stop s) = (xs, s')
           \<and> mset xs = all_tasks s
           \<and> tasks s' = [] \<and> delay_tasks s' = [] \<and> stop_flag s'
           \<and> TaskQueue_v4_pop idle s' [late] [] = Some (STOPPED, s')))"
proof -
  have discard: "stop_flag s \<longrightarrow>
        TaskQueue_push x s = s \<and> TaskQueue_push_priority x s = s
      \<and> TaskQueue_push_delay x t s = s
      \<and> TaskQueue_v4_push x s = s \<and> TaskQueue_v4_push_front x s = s
      \<and> TaskQueue_v4_push_delay x t s = s"
    by (simp add: TaskQueue_push_def TaskQueue_push_priority_def TaskQueue_push_delay_def
        TaskQueue_v4_push_def TaskQueue_v4_push_front_def TaskQueue_v4_push_delay_def)
  have stop: "TaskQueue_stop s = s\<lparr>stop_flag := True\<rparr>" "TaskQueue_v4_stop s = s\<lparr>stop_flag := True\<rparr>"
    by (simp_all add: TaskQueue_stop_def TaskQueue_v4_stop_def)
  have kept: "\<forall>r s'. TaskQueue_pop idle s clk wakes = Some (r, s')
             \<or> TaskQueue_v4_pop idle s clk wakes = Some (r, s')
        \<longrightarrow> (\<exists>s0 \<in> set (s # map snd wakes). pop_conserves s0 r s')"
    using TaskQueue_pop_conserves [of idle s clk wakes] by blast
  have sel: "\<forall>r s'. spec_select now s = Some (r, s') \<longrightarrow> pop_conserves s r s'"
    using spec_select_conserves [of now s] by blast
  have pending: "stop_flag s \<and> tasks s = [] \<and> delay_tasks s \<noteq> []
        \<and> now < fst (pq_top (delay_tasks s))
        \<longrightarrow> TaskQueue_pop idle s [entry, now] [] = None
          \<and> TaskQueue_v4_pop idle s [now] [] = None"
    by (simp add: pop_now pop_v4_now spec_select_none)
  have consumer: "\<forall>xs s'. drain calls idle s = (xs, s') \<or> drain_v4 calls idle s = (xs, s')
        \<longrightarrow> mset xs + all_tasks s' = all_tasks s \<and> stop_flag s' = stop_flag s"
    using drain_conserves [of calls idle s] by blast
  have drained: "(\<forall>e \<in> set (delay_tasks s). fst e \<le> late) \<longrightarrow>
        (\<exists>xs s'. drain (early @ replicate (TaskQueue_size s) ([late, late], [])) idle
                   (TaskQueue_stop s) = (xs, s')
           \<and> mset xs = all_tasks s
           \<and> tasks s' = [] \<and> delay_tasks s' = [] \<and> stop_flag s'
           \<and> TaskQueue_pop idle s' [late, late] [] = Some (STOPPED, s'))
      \<and> (\<exists>xs s'. drain_v4 (early @ replicate (TaskQueue_v4_size s) ([late], [])) idle
                   (TaskQueue_v4_stop s) = (xs, s')
           \<and> mset xs = all_tasks s
           \<and> tasks s' = [] \<and> delay_tasks s' = [] \<and> stop_flag s'
           \<and> TaskQueue_v4_pop idle s' [late] [] = Some (STOPPED, s'))"
    using drain_stopped [of s late early idle] drain_v4_stopped [of s late early idle]
    by blast
  show ?thesis
    apply (intro conjI)
    apply (rule discard)
    apply (rule stop)
    apply (rule stop)
    apply (rule kept)
    apply (rule pop_now)
    apply (rule pop_v4_now)
    apply (rule sel)
    apply (rule pending)
    apply (rule consumer)
    apply (rule drained)
    done
qed

text \<open>
  A stopped queue holds two FIFO tasks and two delayed ones, due at 30 and at 50. A
  later \<^verbatim>\<open>push\<close> is dropped. The consumer of \<^verbatim>\<open>src/unnamed/part_005\<close> calls \<^verbatim>\<open>pop\<close>
  at 10 and at 20 and is handed the FIFO tasks; its call at 25 waits until 30 and hands
  out the task due then; its call at 40 waits until 50 and hands out the other; at 60
  \<^verbatim>\<open>pop\<close> says \<open>STOPPED\<close>.
\<close>

theorem stopped_queue_discards_and_drains_witness:
  "TaskQueue_push (9 :: nat) \<lparr>tasks = [1, 2], delay_tasks = [(30, 8), (50, 7)], stop_flag = True\<rparr>
     = \<lparr>tasks = [1, 2], delay_tasks = [(30, 8), (50, 7)], stop_flag = True\<rparr>
   \<and> drain [([10, 10], []), ([20, 20], []), ([25, 25, 30, 31], [30]), ([40, 40, 50, 50], [50]),
            ([60, 60], []), ([60, 60], []), ([60, 60], []), ([60, 60], [])] 2
        \<lparr>tasks = [1, 2], delay_tasks = [(30, 8), (50, 7 :: nat)], stop_flag = True\<rparr>
     = ([1, 2, 8, 7], \<lparr>tasks = [], delay_tasks = [], stop_flag = True\<rparr>)"
proof -
  have "drain [([10, 10], []), ([20, 20], []), ([25, 25, 30, 31], [30]), ([40, 40, 50, 50], [50]),
            ([60, 60], []), ([60, 60], []), ([60, 60], []), ([60, 60], [])] 2
        \<lparr>tasks = [1, 2], delay_tasks = [(30, 8), (50, 7 :: nat)], stop_flag = True\<rparr>
     = ([1, 2, 8, 7], \<lparr>tasks = [], delay_tasks = [], stop_flag = True\<rparr>)"
    by (simp add: drain_def TaskQueue_pop_def seconds_def wrap64_def pq_top_def pq_pop_def
        pop_heap_def adjust_heap_def adjust_heap_loop.simps push_heap_loop.simps)
  with stopped_queue_discards_and_drains [where x = 9 and late = 60 and idle = 2
      and early = "[([10, 10], []), ([20, 20], []), ([25, 25, 30, 31], [30]),
                    ([40, 40, 50, 50], [50])]"
      and now = 0 and t = 0 and clk = "[]" and wakes = "[]" and entry = 0 and calls = "[]"
      and s = "\<lparr>tasks = [1, 2], delay_tasks = [(30, 8), (50, 7 :: nat)], stop_flag = True\<rparr>"]
  show ?thesis by simp
qed

section \<open>Properties of the multi-lock acquirer\<close>

subsection \<open>The other threads leave the caller's mutexes alone\<close>

lemma other_thread_self [simp]:
  "(other_thread self e \<sigma> m = Some self) = (\<sigma> m = Some self)"
  by (cases e) auto

lemma fold_other_thread_self [simp]:
  "(fold (other_thread self) b \<sigma> m = Some self) = (\<sigma> m = Some self)"
  by (induction b arbitrary: \<sigma>) simp_all

lemma others_run_self:
  "others_run self st = (\<sigma>, sched) \<Longrightarrow> (\<sigma> m = Some self) = (fst st m = Some self)"
  by (auto simp: others_run_def split: list.splits)

lemma others_run_idle [simp]: "others_run self (\<sigma>, []) = (\<sigma>, [])"
  by (simp add: others_run_def)

subsection \<open>What the caller holds after each step\<close>

lemma mutex_lock_result:
  "mutex_lock self m \<sigma> sched = Some (\<sigma>', sched') \<Longrightarrow>
     \<sigma>' m = Some self \<and> \<sigma> m \<noteq> Some self
     \<and> (\<forall>m'. m' \<noteq> m \<longrightarrow> (\<sigma>' m' = Some self) = (\<sigma> m' = Some self))"
proof (induction self m \<sigma> sched rule: mutex_lock.induct)
  case (1 self m \<sigma>)
  then show ?case by (auto split: if_splits)
next
  case (2 self m \<sigma> b bs)
  show ?case
  proof (cases "fold (other_thread self) b \<sigma> m = None")
    case True
    with "2.prems" have "\<sigma>' = (fold (other_thread self) b \<sigma>)(m \<mapsto> self)"
      by (simp add: Let_def)
    moreover from True have "\<sigma> m \<noteq> Some self"
      using fold_other_thread_self [of self b \<sigma> m] by auto
    ultimately show ?thesis by simp
  next
    case False
    with "2.prems" have "mutex_lock self m (fold (other_thread self) b \<sigma>) bs = Some (\<sigma>', sched')"
      by (simp add: Let_def)
    from "2.IH" [OF refl False this] show ?thesis by simp
  qed
qed

lemma do_try_result:
  "do_try self ms st = (ok, st') \<Longrightarrow>
     (\<forall>m. (fst st' m = Some self) = (fst st m = Some self \<or> (ok \<and> m \<in> set ms)))"
proof (induction ms arbitrary: st ok st')
  case Nil
  then show ?case by auto
next
  case (Cons m ms)
  obtain \<sigma> sched where o: "others_run self st = (\<sigma>, sched)" by (cases "others_run self st")
  have same: "\<And>x. (\<sigma> x = Some self) = (fst st x = Some self)"
    using others_run_self [OF o] by simp
  show ?case
  proof (cases "\<sigma> m \<noteq> None")
    case True
    with Cons.prems o have "ok = False" "st' = (\<sigma>, sched)" by auto
    with same show ?thesis by simp
  next
    case False
    then have free: "\<sigma> m = None" by simp
    show ?thesis
    proof (cases "ms = []")
      case True
      with Cons.prems o free have "ok = True" "st' = (\<sigma>(m \<mapsto> self), sched)" by auto
      with same True show ?thesis by auto
    next
      case False
      obtain ok1 \<sigma>1 sched1 where r: "do_try self ms (\<sigma>(m \<mapsto> self), sched) = (ok1, (\<sigma>1, sched1))"
        by (metis prod.exhaust)
      from Cons.IH [OF r]
      have ih: "\<And>x. (\<sigma>1 x = Some self) = ((\<sigma>(m \<mapsto> self)) x = Some self \<or> (ok1 \<and> x \<in> set ms))"
        by simp
      show ?thesis
      proof (cases ok1)
        case True
        with Cons.prems o free False r have "ok = True" "st' = (\<sigma>1, sched1)" by auto
        with ih same True show ?thesis by auto
      next
        case f: False
        with Cons.prems o free False r have "ok = False" "st' = (\<sigma>1(m := None), sched1)" by auto
        with ih same f free same [of m] show ?thesis by auto
      qed
    qed
  qed
qed

subsection \<open>The two implementations agree\<close>

lemma DoTryLock_do_try:
  "0 \<le> Index \<Longrightarrow> ms \<noteq> [] \<Longrightarrow>
     snd (DoTryLock self Index ms st) = snd (do_try self ms st)
     \<and> (fst (DoTryLock self Index ms st) = - 1) = fst (do_try self ms st)
     \<and> (fst (DoTryLock self Index ms st) = - 1 \<or> Index \<le> fst (DoTryLock self Index ms st))"
proof (induction ms arbitrary: Index st)
  case Nil
  then show ?case by simp
next
  case (Cons m ms)
  obtain \<sigma> sched where o: "others_run self st = (\<sigma>, sched)" by (cases "others_run self st")
  show ?case
  proof (cases "ms = []")
    case True
    with o Cons.prems show ?thesis by auto
  next
    case False
    from Cons.prems have "0 \<le> Index + 1" by simp
    from Cons.IH [OF this False, of "(\<sigma>(m \<mapsto> self), sched)"] o False Cons.prems(1)
    show ?thesis
      by (auto split: prod.splits bool.splits)
  qed
qed


subsection \<open>Passes and the loop\<close>

lemma lock_all_round_result:
  assumes "lock_all_round self m1 ms \<sigma> sched = Some (ok, (\<sigma>', sched'))"
  shows "\<sigma> m1 \<noteq> Some self"
    and "(\<sigma>' m = Some self) = (\<sigma> m = Some self \<or> (ok \<and> m \<in> set (m1 # ms)))"
proof -
  from assms obtain \<sigma>1 sched1 where l: "mutex_lock self m1 \<sigma> sched = Some (\<sigma>1, sched1)"
    by (auto simp: lock_all_round_def split: option.splits)
  from mutex_lock_result [OF l]
  have h: "\<sigma>1 m1 = Some self" and n: "\<sigma> m1 \<noteq> Some self"
    and o: "\<And>m'. m' \<noteq> m1 \<Longrightarrow> (\<sigma>1 m' = Some self) = (\<sigma> m' = Some self)"
    by auto
  from n show "\<sigma> m1 \<noteq> Some self" .
  show "(\<sigma>' m = Some self) = (\<sigma> m = Some self \<or> (ok \<and> m \<in> set (m1 # ms)))"
  proof (cases "ms = []")
    case True
    with assms l have "ok" "\<sigma>' = \<sigma>1" by (auto simp: lock_all_round_def)
    with h o True show ?thesis by (cases "m = m1") auto
  next
    case False
    obtain ok1 \<sigma>2 sched2 where d: "do_try self ms (\<sigma>1, sched1) = (ok1, (\<sigma>2, sched2))"
      by (metis prod.exhaust)
    from do_try_result [OF d]
    have r: "\<And>x. (\<sigma>2 x = Some self) = (\<sigma>1 x = Some self \<or> (ok1 \<and> x \<in> set ms))" by simp
    show ?thesis
    proof (cases ok1)
      case True
      with assms l d False have "ok" "\<sigma>' = \<sigma>2" by (auto simp: lock_all_round_def)
      with r [of m] True h o [of m] show ?thesis by (cases "m = m1") auto
    next
      case f: False
      with assms l d False have "\<not> ok" "\<sigma>' = \<sigma>2(m1 := None)" by (auto simp: lock_all_round_def)
      with r [of m] f n o [of m] show ?thesis by (cases "m = m1") auto
    qed
  qed
qed

lemma lock_all_result:
  "lock_all rounds self m1 ms \<sigma> sched = Some (\<sigma>', sched') \<Longrightarrow>
     (\<sigma>' m = Some self) = (\<sigma> m = Some self \<or> m \<in> set (m1 # ms))"
proof (induction rounds arbitrary: \<sigma> sched)
  case 0
  then show ?case by simp
next
  case (Suc rounds)
  from Suc.prems obtain ok \<sigma>1 sched1
    where r: "lock_all_round self m1 ms \<sigma> sched = Some (ok, (\<sigma>1, sched1))"
    by (auto split: option.splits)
  show ?case
  proof (cases ok)
    case True
    with Suc.prems r have "\<sigma>' = \<sigma>1" by simp
    with lock_all_round_result(2) [OF r, of m] True show ?thesis by simp
  next
    case False
    with Suc.prems r have "lock_all rounds self m1 ms \<sigma>1 sched1 = Some (\<sigma>', sched')" by simp
    from Suc.IH [OF this] lock_all_round_result(2) [OF r, of m] False show ?thesis by simp
  qed
qed

lemma Lock_round_eq: "Lock_round self m1 m2 m3 \<sigma> sched = lock_all_round self m1 (m2 # m3) \<sigma> sched"
proof (cases "mutex_lock self m1 \<sigma> sched")
  case None
  then show ?thesis by (simp add: Lock_round_def lock_all_round_def)
next
  case (Some st)
  obtain \<sigma>1 sched1 where st: "st = (\<sigma>1, sched1)" by (cases st)
  show ?thesis
  proof (cases "m3 = []")
    case True
    with Some st show ?thesis
      by (simp add: Lock_round_def lock_all_round_def split: prod.splits)
  next
    case False
    from DoTryLock_do_try [of 0 "m2 # m3" self "(\<sigma>1, sched1)"]
    have "snd (DoTryLock self 0 (m2 # m3) (\<sigma>1, sched1)) = snd (do_try self (m2 # m3) (\<sigma>1, sched1))"
      and "(fst (DoTryLock self 0 (m2 # m3) (\<sigma>1, sched1)) = - 1)
             = fst (do_try self (m2 # m3) (\<sigma>1, sched1))"
      by simp_all
    with Some st False show ?thesis
      unfolding Lock_round_def lock_all_round_def
      by (cases "DoTryLock self 0 (m2 # m3) (\<sigma>1, sched1)";
          cases "do_try self (m2 # m3) (\<sigma>1, sched1)") (auto split: bool.splits)
  qed
qed

lemma Lock_eq: "Lock rounds self m1 m2 m3 \<sigma> sched = lock_all rounds self m1 (m2 # m3) \<sigma> sched"
  by (induction rounds arbitrary: \<sigma> sched)
    (auto simp: Lock_round_eq split: option.splits bool.splits)

subsection \<open>Free mutexes are taken in one pass\<close>

lemma do_try_free:
  "distinct ms \<Longrightarrow> \<forall>m \<in> set ms. \<sigma> m = None \<Longrightarrow>
     do_try self ms (\<sigma>, []) = (True, ((\<lambda>m. if m \<in> set ms then Some self else \<sigma> m), []))"
proof (induction ms arbitrary: \<sigma>)
  case Nil
  then show ?case by simp
next
  case (Cons m ms)
  from Cons.prems have d: "distinct ms" and f: "\<forall>x \<in> set ms. (\<sigma>(m \<mapsto> self)) x = None"
    and free: "\<sigma> m = None"
    by auto
  define g where "g = (\<lambda>x. if x \<in> set ms then Some self else (\<sigma>(m \<mapsto> self)) x)"
  have ih: "do_try self ms (\<sigma>(m \<mapsto> self), []) = (True, (g, []))"
    unfolding g_def by (rule Cons.IH [of "\<sigma>(m \<mapsto> self)", OF d f])
  have e: "g = (\<lambda>x. if x \<in> set (m # ms) then Some self else \<sigma> x)"
    by (auto simp: g_def fun_eq_iff)
  have "do_try self (m # ms) (\<sigma>, []) = (True, (g, []))"
  proof (cases "ms = []")
    case True
    with ih have "g = \<sigma>(m \<mapsto> self)" by simp
    with True free show ?thesis by simp
  next
    case False
    with free ih show ?thesis by simp
  qed
  then show ?case by (simp only: e)
qed

lemma lock_all_free:
  assumes "distinct (m1 # ms)" and "\<forall>m \<in> set (m1 # ms). \<sigma> m = None"
  shows "lock_all (Suc rounds) self m1 ms \<sigma> []
           = Some ((\<lambda>m. if m \<in> set (m1 # ms) then Some self else \<sigma> m), [])"
proof -
  from assms have l: "mutex_lock self m1 \<sigma> [] = Some (\<sigma>(m1 \<mapsto> self), [])" by simp
  from assms have "distinct ms" "\<forall>m \<in> set ms. (\<sigma>(m1 \<mapsto> self)) m = None" by auto
  from do_try_free [OF this, of self]
  have d: "do_try self ms (\<sigma>(m1 \<mapsto> self), [])
             = (True, ((\<lambda>m. if m \<in> set ms then Some self else (\<sigma>(m1 \<mapsto> self)) m), []))" .
  have e: "(\<lambda>m. if m \<in> set ms then Some self else (\<sigma>(m1 \<mapsto> self)) m)
             = (\<lambda>m. if m \<in> set (m1 # ms) then Some self else \<sigma> m)"
    by (auto simp: fun_eq_iff)
  show ?thesis
  proof (cases "ms = []")
    case True
    with l show ?thesis by (auto simp: lock_all_round_def fun_eq_iff)
  next
    case False
    with l d e show ?thesis by (simp add: lock_all_round_def)
  qed
qed


subsection \<open>All of the locks, or none\<close>

text \<open>
  Claim C9: over n \<open>\<ge>\<close> 2 lockables the acquirer blocks on the first and tries the others
  in order; when a try fails it releases every lock it took in that pass, the first
  included, before it starts again; when it returns the caller holds all n locks;
  between passes it holds none of them.

  The passes are \<open>lock_all_round\<close> and \<open>Lock_round\<close>, which block in \<open>mutex_lock\<close> and
  then try in list order (\<open>do_try\<close>, \<open>DoTryLock\<close>). Whatever the other threads do:
  a pass starts on a first mutex that the caller does not hold; after a pass that failed
  the caller holds exactly the mutexes it held before the pass, so none of the n when it
  held none at the call; after a pass that succeeded, and so whenever \<^verbatim>\<open>lock_all\<close>
  returns, it holds those and all n. \<^verbatim>\<open>Lock\<close> of \<^verbatim>\<open>rw_lock.cpp\<close> does the same as
  \<^verbatim>\<open>lock_all\<close>, pass by pass. When the n mutexes are distinct and free and the other
  threads are idle, the first pass takes them all.
\<close>

theorem lock_all_takes_all_or_nothing:
  "(\<forall>ok \<sigma>' sched'. lock_all_round self m1 ms \<sigma> sched = Some (ok, (\<sigma>', sched')) \<longrightarrow>
        \<sigma> m1 \<noteq> Some self
      \<and> (\<forall>m. (\<sigma>' m = Some self) = (\<sigma> m = Some self \<or> (ok \<and> m \<in> set (m1 # ms)))))
   \<and> (\<forall>\<sigma>' sched'. lock_all rounds self m1 ms \<sigma> sched = Some (\<sigma>', sched') \<longrightarrow>
        (\<forall>m. (\<sigma>' m = Some self) = (\<sigma> m = Some self \<or> m \<in> set (m1 # ms))))
   \<and> Lock_round self m1 m2 m3 \<sigma> sched = lock_all_round self m1 (m2 # m3) \<sigma> sched
   \<and> Lock rounds self m1 m2 m3 \<sigma> sched = lock_all rounds self m1 (m2 # m3) \<sigma> sched
   \<and> (distinct (m1 # ms) \<and> (\<forall>m \<in> set (m1 # ms). \<sigma> m = None) \<longrightarrow>
        lock_all (Suc rounds) self m1 ms \<sigma> []
          = Some ((\<lambda>m. if m \<in> set (m1 # ms) then Some self else \<sigma> m), []))"
  using lock_all_round_result [of self m1 ms \<sigma> sched] lock_all_result [of rounds self m1 ms \<sigma> sched]
    Lock_round_eq [of self m1 m2 m3 \<sigma> sched] Lock_eq [of rounds self m1 m2 m3 \<sigma> sched]
    lock_all_free [of m1 ms \<sigma> rounds self]
  by blast

text \<open>
  Thread 1 acquires the mutexes 1, 2 and 3 while thread 9 holds mutex 2 and releases it
  later. The first pass takes 1, fails on 2 and releases 1, so that one pass is not
  enough; the second pass, after the release, takes all three.
\<close>

theorem lock_all_takes_all_or_nothing_witness:
  "lock_all (Suc 0) 1 1 [2, 3] ((\<lambda>_. None)(2 \<mapsto> 9)) [[], [], [Release 9 2]] = None
   \<and> fst (snd (the (lock_all_round 1 1 [2, 3] ((\<lambda>_. None)(2 \<mapsto> 9)) [[], [], [Release 9 2]]))) 1
       = None
   \<and> fst (the (lock_all (Suc (Suc 0)) 1 1 [2, 3] ((\<lambda>_. None)(2 \<mapsto> 9))
             [[], [], [Release 9 2]])) 1 = Some 1
   \<and> fst (the (lock_all (Suc (Suc 0)) 1 1 [2, 3] ((\<lambda>_. None)(2 \<mapsto> 9))
             [[], [], [Release 9 2]])) 2 = Some 1
   \<and> fst (the (lock_all (Suc (Suc 0)) 1 1 [2, 3] ((\<lambda>_. None)(2 \<mapsto> 9))
             [[], [], [Release 9 2]])) 3 = Some 1
   \<and> fst (the (Lock (Suc (Suc 0)) 1 1 2 [3] ((\<lambda>_. None)(2 \<mapsto> 9))
             [[], [], [Release 9 2]])) 3 = Some 1
   \<and> fst (the (lock_all (Suc 0) 1 1 [2, 3] (\<lambda>_. None) [])) 3 = Some 1"
  using lock_all_takes_all_or_nothing [of 1 1 "[2, 3]" "(\<lambda>_. None)(2 \<mapsto> 9)"
      "[[], [], [Release 9 2]]" "Suc (Suc 0)" 2 "[3]"]
    lock_all_takes_all_or_nothing [of 1 1 "[2, 3]" "\<lambda>_. None" "[]" 0 2 "[3]"]
  by (simp add: lock_all_round_def Lock_round_def others_run_def)

section \<open>Properties of the pool constructor\<close>

lemma spawn_loop_dom:
  "dom (spawn_loop i n next_id ws) = dom ws \<union> {next_id ..< next_id + nat (n - i)}"
proof (induction i n next_id ws rule: spawn_loop.induct)
  case (1 i n next_id ws)
  show ?case
  proof (cases "i < n")
    case True
    then have a: "{next_id ..< next_id + nat (n - i)}
        = insert next_id {next_id + 1 ..< next_id + 1 + nat (n - (i + 1))}"
      by auto
    have b: "dom (emplace next_id (Thread next_id) ws) = insert next_id (dom ws)"
      by (auto simp: emplace_def)
    have "spawn_loop i n next_id ws
        = spawn_loop (i + 1) n (next_id + 1) (emplace next_id (Thread next_id) ws)"
      using True by (subst spawn_loop.simps) simp
    with "1.IH" [OF True] a b show ?thesis by simp
  next
    case False
    then show ?thesis by (subst spawn_loop.simps) simp
  qed
qed

lemma spawn_loop_handles:
  "spawn_loop i n next_id ws k = Some v \<Longrightarrow> ws k = Some v \<or> v = Thread k"
proof (induction i n next_id ws rule: spawn_loop.induct)
  case (1 i n next_id ws)
  show ?case
  proof (cases "i < n")
    case True
    with "1.prems" have "spawn_loop (i + 1) n (next_id + 1) (emplace next_id (Thread next_id) ws) k = Some v"
      by (subst (asm) spawn_loop.simps) simp
    from "1.IH" [OF True this] show ?thesis
      by (auto simp: emplace_def split: if_splits)
  next
    case False
    with "1.prems" show ?thesis by (subst (asm) spawn_loop.simps) simp
  qed
qed

text \<open>
  Claim C10: for every pair of arguments the constructor sets the effective maximum to
  the larger of \<open>min_threads\<close> and \<open>max_threads\<close>, so that a maximum below the minimum is
  raised to it without an error; it starts exactly \<open>min_threads\<close> workers; it accepts a
  \<open>min_threads\<close> that is not positive without an error, and starts no worker then.

  Both constructors always return a pool, the same one. Its workers are the threads
  with the \<open>nat min_threads\<close> ids from \<open>first_id\<close> on, which is \<open>min_threads\<close> workers
  when that is not negative and none otherwise.
\<close>

theorem ThreadPool_ctor_clamps:
  "(\<exists>p. ThreadPool_ctor mn mx idle first_id = Inr p
        \<and> ThreadPool_v4_ctor mn mx idle first_id = Inr p
        \<and> min_threads p = mn
        \<and> max_threads p = max mn mx
        \<and> min_threads p \<le> max_threads p
        \<and> dom (workers p) = {first_id ..< first_id + nat mn}
        \<and> card (dom (workers p)) = nat mn
        \<and> (mn \<le> 0 \<longrightarrow> workers p = Map.empty)
        \<and> (0 \<le> mn \<longrightarrow> int (card (dom (workers p))) = mn)
        \<and> (mx < mn \<longrightarrow> max_threads p = mn))"
proof -
  have d: "dom (spawn_loop 0 mn first_id Map.empty) = {first_id ..< first_id + nat mn}"
    by (simp add: spawn_loop_dom)
  then have c: "card (dom (spawn_loop 0 mn first_id Map.empty)) = nat mn" by simp
  have e: "mn \<le> 0 \<longrightarrow> spawn_loop 0 mn first_id Map.empty = Map.empty"
    by (subst spawn_loop.simps) simp
  from d c e show ?thesis
    by (simp add: ThreadPool_ctor_def ThreadPool_v4_ctor_def Let_def)
qed

text \<open>With the arguments \<open>(- 3, - 7)\<close> the pool has the maximum \<open>- 3\<close> and no worker;
  with \<open>(4, 2)\<close> it has the maximum 4 and four workers.\<close>

theorem ThreadPool_ctor_clamps_witness:
  "(case ThreadPool_ctor (- 3) (- 7) 2 100 of
      Inl e \<Rightarrow> False
    | Inr p \<Rightarrow> max_threads p = - 3 \<and> workers p = Map.empty)
   \<and> (case ThreadPool_ctor 4 2 2 100 of
      Inl e \<Rightarrow> False
    | Inr p \<Rightarrow> max_threads p = 4 \<and> dom (workers p) = {100, 101, 102, 103})"
  using ThreadPool_ctor_clamps [of "- 3" "- 7" 2 100] ThreadPool_ctor_clamps [of 4 2 2 100]
  by (auto simp: ThreadPool_ctor_def)


end
